theory Spec2Isabelle
  imports Main "HOL-Library.Word"
begin

unbundle bit_operations_syntax

section \<open>NSS client, GROUP database interface (src/nss_client/group.c)\<close>

text \<open>
  The embedding fixes the LP64 little-endian platform the client is built for:
  \<open>size_t\<close> and pointers are 64 bits wide, \<open>long int\<close> is 64 bits, \<open>gid_t\<close> and
  \<open>uint32_t\<close> are 32 bits, and multi-byte values are laid out least significant byte first.
  Unsigned C arithmetic is word arithmetic (it wraps); comparisons of \<open>size_t\<close> values are the
  unsigned order of words.

  Memory is explicit. A buffer is the list of the bytes it holds, and its length is the number
  of bytes that belong to it. An access outside the buffer is undefined behaviour in C; the
  embedding makes it a value, \<open>Fault\<close>, that records the kind of access and the offset, and
  stops there.
\<close>

subsection \<open>Machine types, faults, status codes\<close>

type_synonym byte = "8 word"
type_synonym size_t = "64 word"
type_synonym uint32_t = "32 word"
type_synonym uint64_t = "64 word"
type_synonym gid_t = "32 word"

datatype fault = ReadOOB nat | WriteOOB nat

datatype 'a outcome = Fault fault | Done 'a

definition obind :: "'a outcome \<Rightarrow> ('a \<Rightarrow> 'b outcome) \<Rightarrow> 'b outcome" where
  "obind m f = (case m of Fault e \<Rightarrow> Fault e | Done x \<Rightarrow> f x)"

text \<open>The values of \<open>errno.h\<close> on Linux.\<close>

definition ENOMEM :: int where "ENOMEM = 12"
definition EBADMSG :: int where "EBADMSG = 74"

text \<open>\<open>enum nss_status\<close> of \<open>nss.h\<close>.\<close>

datatype nss_status =
  NSS_STATUS_TRYAGAIN | NSS_STATUS_UNAVAIL | NSS_STATUS_NOTFOUND | NSS_STATUS_SUCCESS
  | NSS_STATUS_RETURN

subsection \<open>Bytes in memory\<close>

fun le_word :: "byte list \<Rightarrow> 'a::len word" where
  "le_word [] = 0"
| "le_word (b # bs) = ucast b OR push_bit 8 (le_word bs)"

definition le_bytes :: "nat \<Rightarrow> 'a::len word \<Rightarrow> byte list" where
  "le_bytes n w = map (\<lambda>k. ucast (drop_bit (8 * k) w)) [0..<n]"

definition load8 :: "byte list \<Rightarrow> nat \<Rightarrow> byte outcome" where
  "load8 m off = (if off < length m then Done (m ! off) else Fault (ReadOOB off))"

definition store8 :: "byte list \<Rightarrow> nat \<Rightarrow> byte \<Rightarrow> byte list outcome" where
  "store8 m off c = (if off < length m then Done (m[off := c]) else Fault (WriteOOB off))"

definition load32 :: "byte list \<Rightarrow> nat \<Rightarrow> uint32_t outcome" where
  "load32 m off =
     (if off + 4 \<le> length m then Done (le_word (take 4 (drop off m))) else Fault (ReadOOB off))"

definition load64 :: "byte list \<Rightarrow> nat \<Rightarrow> uint64_t outcome" where
  "load64 m off =
     (if off + 8 \<le> length m then Done (le_word (take 8 (drop off m))) else Fault (ReadOOB off))"

definition write_bytes :: "byte list \<Rightarrow> nat \<Rightarrow> byte list \<Rightarrow> byte list" where
  "write_bytes m off bs = take off m @ bs @ drop (off + length bs) m"

definition store_ptr :: "byte list \<Rightarrow> nat \<Rightarrow> size_t \<Rightarrow> byte list outcome" where
  "store_ptr m off p =
     (if off + 8 \<le> length m then Done (write_bytes m off (le_bytes 8 p))
      else Fault (WriteOOB off))"

subsection \<open>The reply decoder: \<open>sss_nss_getgr_readrep\<close>\<close>

text \<open>
  \<open>struct group\<close>: the three pointer fields hold addresses. \<open>struct sss_nss_gr_rep\<close> is
  passed unfolded: \<open>res\<close> is \<open>*pr->result\<close>, \<open>buffer\<close> is the address \<open>pr->buffer\<close>,
  \<open>buflen\<close> is \<open>pr->buflen\<close>, and \<open>arena\<close> is the memory behind \<open>pr->buffer\<close>, so that
  \<open>pr->buffer[k]\<close> is byte \<open>k\<close> of \<open>arena\<close> and has address \<open>buffer + k\<close>.
  \<open>buf\<close> is the memory behind the source pointer.
\<close>

record group =
  gr_name :: size_t
  gr_passwd :: size_t
  gr_gid :: gid_t
  gr_mem :: size_t

lemma unat_inc: "i < slen \<Longrightarrow> unat (i + 1) = Suc (unat i)" for i :: "'a::len word"
proof -
  assume "i < slen"
  then have "unat i < unat slen" by (simp add: word_less_nat_alt)
  moreover have "unat slen < 2 ^ LENGTH('a)" by (rule unsigned_less)
  ultimately have "unat i + 1 < 2 ^ LENGTH('a)" by linarith
  then show ?thesis by (simp add: unat_word_ariths)
qed

lemma unat_inc_measure:
  "i < slen \<Longrightarrow> unat slen - unat (i + 1) < unat slen - unat i" for i :: "'a::len word"
  using unat_inc [of i slen] by (simp add: word_less_nat_alt)

lemma unat_add_nat:
  "unat i + n < 2 ^ LENGTH('a) \<Longrightarrow> unat (i + of_nat n) = unat i + n" for i :: "'a::len word"
  by (simp add: unat_word_ariths unat_of_nat)

lemma unat_sub_nat:
  "n \<le> unat d \<Longrightarrow> unat (d - of_nat n) = unat d - n" for d :: "'a::len word"
proof -
  assume a: "n \<le> unat d"
  have "unat d < 2 ^ LENGTH('a)" by (rule unsigned_less)
  with a have "n < 2 ^ LENGTH('a)" by linarith
  then have un: "unat (of_nat n :: 'a word) = n" by (simp add: unat_of_nat)
  with a have "(of_nat n :: 'a word) \<le> d" by (simp add: word_le_nat_alt)
  then show ?thesis using un by (simp add: unat_sub)
qed

text \<open>
  Lines 97-102 and 113-118: the copy loop of the name and of the password placeholder.
  \<open>sbuf[i]\<close> is \<open>buf[12 + i]\<close>. The result is the state at the loop's exit.
\<close>

function copy_field ::
  "byte list \<Rightarrow> size_t \<Rightarrow> size_t \<Rightarrow> size_t \<Rightarrow> byte list \<Rightarrow> (size_t \<times> size_t \<times> byte list) outcome"
where
  "copy_field buf slen i dlen arena =
     (if i < slen \<and> 0 < dlen then
        (case load8 buf (12 + unat i) of
           Fault e \<Rightarrow> Fault e
         | Done c \<Rightarrow>
            (case store8 arena (unat i) c of
               Fault e \<Rightarrow> Fault e
             | Done arena' \<Rightarrow>
                 if c = 0 then Done (i, dlen, arena')
                 else copy_field buf slen (i + 1) (dlen - 1) arena'))
      else Done (i, dlen, arena))"
  by pat_completeness auto
termination
  by (relation "measure (\<lambda>(buf, slen, i, dlen, arena). unat slen - unat i)")
     (simp_all add: unat_inc_measure)

text \<open>
  Lines 140-146: the copy loop of one member. It differs from the loop above: the source
  index and the remaining capacity move before the test for the terminator, and the
  destination index \<open>ptmem\<close> stays on the terminator when the loop leaves by \<open>break\<close>.
\<close>

function copy_member ::
  "byte list \<Rightarrow> size_t \<Rightarrow> size_t \<Rightarrow> size_t \<Rightarrow> size_t \<Rightarrow> byte list
     \<Rightarrow> (size_t \<times> size_t \<times> size_t \<times> byte list) outcome"
where
  "copy_member buf slen i dlen ptmem arena =
     (if i < slen \<and> 0 < dlen then
        (case load8 buf (12 + unat i) of
           Fault e \<Rightarrow> Fault e
         | Done c \<Rightarrow>
            (case store8 arena (unat ptmem) c of
               Fault e \<Rightarrow> Fault e
             | Done arena' \<Rightarrow>
                 if c = 0 then Done (i + 1, dlen - 1, ptmem, arena')
                 else copy_member buf slen (i + 1) (dlen - 1) (ptmem + 1) arena'))
      else Done (i, dlen, ptmem, arena))"
  by pat_completeness auto
termination
  by (relation "measure (\<lambda>(buf, slen, i, dlen, ptmem, arena). unat slen - unat i)")
     (simp_all add: unat_inc_measure)

text \<open>
  Lines 138-156: the loop over the members. \<open>mem_num\<close> is the member count converted to
  \<open>size_t\<close> for the comparison with \<open>l\<close>; \<open>mem_off\<close> is the offset of the member table in
  the arena (\<open>gr_mem\<close> is \<open>buffer + mem_off\<close>), so \<open>gr_mem[l]\<close> occupies the eight bytes
  from offset \<open>mem_off + 8 * l\<close>. The result is the value to return (0 when the loop runs to
  its end), the source index and the arena.
\<close>

function read_members ::
  "byte list \<Rightarrow> size_t \<Rightarrow> size_t \<Rightarrow> size_t \<Rightarrow> size_t \<Rightarrow> size_t \<Rightarrow> size_t \<Rightarrow> size_t \<Rightarrow> size_t
     \<Rightarrow> byte list \<Rightarrow> (int \<times> size_t \<times> byte list) outcome"
where
  "read_members buf slen mem_num buffer mem_off l i dlen ptmem arena =
     (if l < mem_num then
        (case store_ptr arena (unat (mem_off + 8 * l)) (buffer + ptmem) of
           Fault e \<Rightarrow> Fault e
         | Done arena1 \<Rightarrow>
            (case copy_member buf slen i dlen ptmem arena1 of
               Fault e \<Rightarrow> Fault e
             | Done (i', dlen', ptmem', arena2) \<Rightarrow>
                (case load8 arena2 (unat ptmem') of
                   Fault e \<Rightarrow> Fault e
                 | Done c \<Rightarrow>
                     if c \<noteq> 0 \<and> i' > slen then Done (EBADMSG, i', arena2)
                     else if c \<noteq> 0 \<and> 0 > dlen' then Done (ENOMEM, i', arena2)
                     else read_members buf slen mem_num buffer mem_off (l + 1) i' dlen'
                            (ptmem' + 1) arena2)))
      else Done (0, i, arena))"
  by pat_completeness auto
termination
  by (relation "measure (\<lambda>(buf, slen, mem_num, buffer, mem_off, l, i, dlen, ptmem, arena).
                   unat mem_num - unat l)")
     (simp_all add: unat_inc_measure)

declare copy_field.simps [simp del] copy_member.simps [simp del] read_members.simps [simp del]

text \<open>
  Lines 97-110 and 113-126, the same text twice: the copy loop, the two tests that follow it
  and the step over the terminator. The result is the value to return (0 to go on), the
  source index, the remaining capacity and the arena.
\<close>

definition read_field ::
  "byte list \<Rightarrow> size_t \<Rightarrow> size_t \<Rightarrow> size_t \<Rightarrow> byte list
     \<Rightarrow> (int \<times> size_t \<times> size_t \<times> byte list) outcome"
where
  "read_field buf slen i dlen arena =
     obind (copy_field buf slen i dlen arena) (\<lambda>(i, dlen, arena).
       if i \<ge> slen then Done (EBADMSG, i, dlen, arena)
       else if 0 \<ge> dlen then Done (ENOMEM, i, dlen, arena)
       else Done (0, i + 1, dlen - 1, arena))"

text \<open>
  Lines 128-159: the member table and the members. \<open>mem_num + 1\<close> is computed in
  \<open>uint32_t\<close> and then widened for the product with \<open>sizeof(char *)\<close>, which is 8.
\<close>

definition readrep_members ::
  "group \<Rightarrow> size_t \<Rightarrow> byte list \<Rightarrow> byte list \<Rightarrow> size_t \<Rightarrow> size_t \<Rightarrow> uint32_t \<Rightarrow> size_t \<Rightarrow> size_t
     \<Rightarrow> (int \<times> group \<times> byte list \<times> size_t) outcome"
where
  "readrep_members res buffer arena buf n slen mem_num i dlen =
     (let res = res\<lparr>gr_mem := buffer + i\<rparr>;
          mem_off = i;
          ptmem = 8 * ucast (mem_num + 1);
          dlen = dlen - ptmem
      in
      if 0 > dlen then Done (ENOMEM, res, arena, n)
      else
        let ptmem = ptmem + i in
        obind (store_ptr arena (unat (mem_off + 8 * ucast mem_num)) 0) (\<lambda>arena.
        obind (read_members buf slen (ucast mem_num) buffer mem_off 0 i dlen ptmem arena)
          (\<lambda>(ret, i, arena).
             if ret \<noteq> 0 then Done (ret, res, arena, n)
             else Done (0, res, arena, slen - i))))"

text \<open>
  Lines 76-160. \<open>n\<close> is the value of \<open>*len\<close> at the call. The result is the returned
  code together with \<open>*pr->result\<close>, the arena and \<open>*len\<close> as the call leaves them.
\<close>

definition sss_nss_getgr_readrep ::
  "group \<Rightarrow> size_t \<Rightarrow> size_t \<Rightarrow> byte list \<Rightarrow> byte list \<Rightarrow> size_t
     \<Rightarrow> (int \<times> group \<times> byte list \<times> size_t) outcome"
where
  "sss_nss_getgr_readrep res buffer buflen arena buf n =
     (if n < 21 then Done (EBADMSG, res, arena, n)
      else
        obind (load64 buf 0) (\<lambda>gid.
        obind (load32 buf 8) (\<lambda>mem_num.
          let res = res\<lparr>gr_gid := ucast gid\<rparr>;
              slen = n - 12;
              dlen = buflen;
              res = res\<lparr>gr_name := buffer\<rparr>
          in
          obind (read_field buf slen 0 dlen arena) (\<lambda>(ret, i, dlen, arena).
            if ret \<noteq> 0 then Done (ret, res, arena, n)
            else
              let res = res\<lparr>gr_passwd := buffer + i\<rparr> in
              obind (read_field buf slen i dlen arena) (\<lambda>(ret, i, dlen, arena).
                if ret \<noteq> 0 then Done (ret, res, arena, n)
                else readrep_members res buffer arena buf n slen mem_num i dlen)))))"

subsection \<open>The source index stays within the source length\<close>

lemma copy_field_le:
  "copy_field buf slen i dlen arena = Done (i', dlen', arena') \<Longrightarrow> i \<le> slen \<Longrightarrow> i' \<le> slen"
proof (induction buf slen i dlen arena rule: copy_field.induct)
  case (1 buf slen i dlen arena)
  show ?case
  proof (cases "i < slen \<and> 0 < dlen")
    case False
    with "1.prems" show ?thesis by (subst (asm) copy_field.simps) simp
  next
    case True
    then have s: "i + 1 \<le> slen" by (simp add: inc_le)
    from "1.prems"(1) True show ?thesis
      apply (subst (asm) copy_field.simps)
      apply (simp split: outcome.splits if_splits)
      using "1.IH" True s apply blast
      done
  qed
qed

lemma copy_member_le:
  "copy_member buf slen i dlen ptmem arena = Done (i', dlen', ptmem', arena') \<Longrightarrow> i \<le> slen
     \<Longrightarrow> i' \<le> slen"
proof (induction buf slen i dlen ptmem arena rule: copy_member.induct)
  case (1 buf slen i dlen ptmem arena)
  show ?case
  proof (cases "i < slen \<and> 0 < dlen")
    case False
    with "1.prems" show ?thesis by (subst (asm) copy_member.simps) simp
  next
    case True
    then have s: "i + 1 \<le> slen" by (simp add: inc_le)
    from "1.prems"(1) True show ?thesis
      apply (subst (asm) copy_member.simps)
      apply (simp split: outcome.splits if_splits)
      using s apply blast
      using "1.IH" True s apply blast
      done
  qed
qed

lemma read_members_le:
  "read_members buf slen mem_num buffer mem_off l i dlen ptmem arena = Done (ret, i', arena')
     \<Longrightarrow> i \<le> slen \<Longrightarrow> i' \<le> slen"
proof (induction buf slen mem_num buffer mem_off l i dlen ptmem arena
        rule: read_members.induct)
  case (1 buf slen mem_num buffer mem_off l i dlen ptmem arena)
  show ?case
  proof (cases "l < mem_num")
    case False
    with "1.prems" show ?thesis by (subst (asm) read_members.simps) simp
  next
    case True
    from "1.prems"(1) True obtain a1 where
      st: "store_ptr arena (unat (mem_off + 8 * l)) (buffer + ptmem) = Done a1"
      by (subst (asm) read_members.simps) (simp split: outcome.splits)
    from "1.prems"(1) True st obtain i1 d1 p1 a2 where
      cm: "copy_member buf slen i dlen ptmem a1 = Done (i1, d1, p1, a2)"
      by (subst (asm) read_members.simps) (simp split: outcome.splits prod.splits)
    from "1.prems"(1) True st cm obtain c where
      ld: "load8 a2 (unat p1) = Done c"
      by (subst (asm) read_members.simps) (simp split: outcome.splits)
    have i1: "i1 \<le> slen" by (rule copy_member_le [OF cm "1.prems"(2)])
    from "1.prems"(1) True st cm ld have
      rest: "(if c \<noteq> 0 \<and> slen < i1 then Done (EBADMSG, i1, a2)
             else if c \<noteq> 0 \<and> d1 < 0 then Done (ENOMEM, i1, a2)
             else read_members buf slen mem_num buffer mem_off (l + 1) i1 d1 (p1 + 1) a2)
            = Done (ret, i', arena')"
      by (subst (asm) read_members.simps) simp
    show ?thesis
    proof (cases "c \<noteq> 0 \<and> slen < i1")
      case True
      with rest i1 show ?thesis by simp
    next
      case b1: False
      show ?thesis
      proof (cases "c \<noteq> 0 \<and> d1 < 0")
        case True
        with rest b1 i1 show ?thesis by simp
      next
        case b2: False
        from rest b1 b2 have
          "read_members buf slen mem_num buffer mem_off (l + 1) i1 d1 (p1 + 1) a2
             = Done (ret, i', arena')" by simp
        with "1.IH" [OF True st cm refl refl refl ld b1 b2] i1 show ?thesis by simp
      qed
    qed
  qed
qed

lemma obind_DoneE:
  assumes "obind m f = Done y"
  obtains x where "m = Done x" and "f x = Done y"
  using assms by (cases m) (simp_all add: obind_def)

lemma read_field_le:
  assumes "read_field buf slen i dlen arena = Done (0, i', dlen', arena')" "i \<le> slen"
  shows "i' \<le> slen"
  using assms(1)
  apply (simp add: read_field_def)
  apply (erule obind_DoneE)
  apply (clarsimp simp: EBADMSG_def ENOMEM_def split: if_splits)
  apply (simp add: inc_le)
  done

lemma readrep_members_remaining:
  assumes "readrep_members res buffer arena buf n slen mem_num i dlen = Done (0, res', arena', n')"
    and "i \<le> slen"
  shows "n' \<le> slen"
  using assms(1)
  apply (simp add: readrep_members_def Let_def ENOMEM_def)
  apply (erule obind_DoneE)
  apply (erule obind_DoneE)
  apply (clarsimp split: if_splits)
  apply (drule read_members_le [OF _ assms(2)])
  apply (simp add: word_sub_le)
  done

lemma readrep_remaining:
  assumes "sss_nss_getgr_readrep res buffer buflen arena buf n = Done (0, res', arena', n')"
  shows "21 \<le> n \<and> n' \<le> n - 12"
proof -
  from assms have n21: "21 \<le> n"
    by (cases "n < 21") (simp_all add: sss_nss_getgr_readrep_def EBADMSG_def)
  then have nl: "\<not> n < 21" by simp
  from assms nl have "n' \<le> n - 12"
    apply (simp add: sss_nss_getgr_readrep_def Let_def)
    apply (erule obind_DoneE)
    apply (erule obind_DoneE)
    apply (erule obind_DoneE)
    apply (clarsimp simp: Let_def split: if_splits)
    apply (erule obind_DoneE)
    apply (clarsimp simp: Let_def split: if_splits)
    apply (drule read_field_le, simp)
    apply (drule read_field_le, simp)
    apply (erule readrep_members_remaining, simp)
    done
  with n21 show ?thesis by simp
qed

text \<open>
  Every read of the source is guarded. When the source memory has exactly the \<open>n\<close> bytes
  the caller announces and \<open>n\<close> has passed the test of line 84, the two header reads are
  inside it, and so is \<open>sbuf[i]\<close> under the loop guard \<open>i < slen\<close>, the only place where
  the loops read the source.
\<close>

lemma source_reads_in_bounds:
  fixes n i :: size_t
  assumes "21 \<le> n" and "length buf = unat n"
  shows "load64 buf 0 = Done (le_word (take 8 (drop 0 buf)))"
    and "load32 buf 8 = Done (le_word (take 4 (drop 8 buf)))"
    and "i < n - 12 \<Longrightarrow> load8 buf (12 + unat i) = Done (buf ! (12 + unat i))"
proof -
  from assms(1) have l21: "21 \<le> unat n" by (simp add: word_le_nat_alt)
  with assms(2) show "load64 buf 0 = Done (le_word (take 8 (drop 0 buf)))"
    by (simp add: load64_def)
  from l21 assms(2) show "load32 buf 8 = Done (le_word (take 4 (drop 8 buf)))"
    by (simp add: load32_def)
  assume "i < n - 12"
  then have "unat i < unat (n - 12)" by (simp only: word_less_nat_alt)
  moreover from l21 have "unat (n - of_nat 12) = unat n - 12"
    by (intro unat_sub_nat) simp
  ultimately have "12 + unat i < unat n" by simp
  with assms(2) show "load8 buf (12 + unat i) = Done (buf ! (12 + unat i))"
    by (simp add: load8_def)
qed

subsection \<open>The request channel\<close>

text \<open>
  \<open>sss_nss_make_request\<close> is not part of this file of the client; the operations see it
  through what it hands back: a status, the reply buffer \<open>repbuf\<close> with its length
  \<open>replen\<close>, and an error number stored through \<open>errnop\<close> when the status is not
  \<open>NSS_STATUS_SUCCESS\<close>. A reply is a value of the record below; \<open>replen\<close> is the
  number of bytes of the buffer, and a request that fails hands over no buffer.

  The heap state of a reply buffer is tracked as well: \<open>Live\<close> when the operation returns
  without having freed it, \<open>Freed\<close> after \<open>free(repbuf)\<close>, \<open>NoBuffer\<close> when the
  channel gave none.
\<close>

record reply =
  rep_status :: nss_status
  repbuf :: "byte list"
  rep_errno :: int

definition replen :: "reply \<Rightarrow> size_t" where
  "replen r = of_nat (length (repbuf r))"

datatype bufstate = NoBuffer | Live | Freed

subsection \<open>Membership expansion: \<open>_nss_sss_initgroups_dyn\<close>\<close>

text \<open>
  \<open>long int\<close> values (\<open>start\<close>, \<open>size\<close>, \<open>limit\<close>, \<open>l\<close>, \<open>max_ret\<close>, \<open>newsize\<close>)
  are integers. \<open>groups\<close> is the allocated array of \<open>gid_t\<close>. Lines 223-226: the copy loop;
  \<open>rbuf[l]\<close> is the 64-bit value at offset \<open>8 + 8 * l\<close> of the reply, narrowed to \<open>gid_t\<close>
  by the assignment.
\<close>

function copy_gids ::
  "byte list \<Rightarrow> int \<Rightarrow> int \<Rightarrow> int \<Rightarrow> gid_t list \<Rightarrow> (int \<times> gid_t list) outcome"
where
  "copy_gids rbuf max_ret l start groups =
     (if l < max_ret then
        (case load64 rbuf (8 + 8 * nat l) of
           Fault e \<Rightarrow> Fault e
         | Done v \<Rightarrow>
             if 0 \<le> start \<and> nat start < length groups
             then copy_gids rbuf max_ret (l + 1) (start + 1) (groups[nat start := ucast v])
             else Fault (WriteOOB (nat start)))
      else Done (start, groups))"
  by pat_completeness auto
termination
  by (relation "measure (\<lambda>(rbuf, max_ret, l, start, groups). nat (max_ret - l))") simp_all

text \<open>
  \<open>realloc\<close>: whether it succeeds is an input, \<open>realloc_ok\<close>. When it succeeds the new
  array has \<open>newsize\<close> entries, the old contents up to the smaller of the two sizes, and
  \<open>fill\<close> in the entries that are new. When it fails the old array is untouched.
\<close>

definition realloc_gids :: "gid_t \<Rightarrow> gid_t list \<Rightarrow> int \<Rightarrow> gid_t list" where
  "realloc_gids fill groups newsize =
     take (nat newsize) groups @ replicate (nat newsize - length groups) fill"

text \<open>
  Lines 171-229; \<open>sizep\<close> is \<open>*size\<close>. The result is the status, \<open>*start\<close>, \<open>*size\<close>, \<open>*groups\<close>, \<open>*errnop\<close>
  and the heap state of the reply buffer.
\<close>

definition nss_sss_initgroups_dyn ::
  "reply \<Rightarrow> bool \<Rightarrow> gid_t \<Rightarrow> int \<Rightarrow> int \<Rightarrow> gid_t list \<Rightarrow> int \<Rightarrow> int
     \<Rightarrow> (nss_status \<times> int \<times> int \<times> gid_t list \<times> int \<times> bufstate) outcome"
where
  "nss_sss_initgroups_dyn r realloc_ok fill start sizep groups limit errnop =
     (if rep_status r \<noteq> NSS_STATUS_SUCCESS
      then Done (rep_status r, start, sizep, groups, rep_errno r, NoBuffer)
      else
        obind (load32 (repbuf r) 0) (\<lambda>num_ret.
          if num_ret = 0 then Done (NSS_STATUS_NOTFOUND, start, sizep, groups, errnop, Freed)
          else
            let max_ret = uint num_ret in
            if sizep - start < uint num_ret then
              let newsize = sizep + uint num_ret;
                  clamp = (limit > 0 \<and> newsize > limit);
                  newsize = (if clamp then limit else newsize);
                  max_ret = (if clamp then newsize - start else max_ret)
              in
              if \<not> realloc_ok
              then Done (NSS_STATUS_TRYAGAIN, start, sizep, groups, ENOMEM, Freed)
              else
                obind (copy_gids (repbuf r) max_ret 0 start (realloc_gids fill groups newsize))
                  (\<lambda>(start, groups).
                     Done (NSS_STATUS_SUCCESS, start, newsize, groups, errnop, Live))
            else
              obind (copy_gids (repbuf r) max_ret 0 start groups)
                (\<lambda>(start, groups).
                   Done (NSS_STATUS_SUCCESS, start, sizep, groups, errnop, Live))))"

subsection \<open>Lookup by name and by id: \<open>_nss_sss_getgrnam_r\<close>, \<open>_nss_sss_getgrgid_r\<close>\<close>

text \<open>
  Lines 232-276 and 278-324. The two functions differ in the request they send; what they do
  with the reply is the same text. \<open>repbuf+8\<close> is the reply without its first eight bytes,
  and \<open>len = replen - 8\<close> is unsigned. The result is the status, \<open>*result\<close>, the arena,
  \<open>*errnop\<close> and the heap state of the reply buffer.
\<close>

definition nss_sss_getgrnam_r ::
  "reply \<Rightarrow> group \<Rightarrow> size_t \<Rightarrow> byte list \<Rightarrow> size_t \<Rightarrow> int
     \<Rightarrow> (nss_status \<times> group \<times> byte list \<times> int \<times> bufstate) outcome"
where
  "nss_sss_getgrnam_r r res buffer arena buflen errnop =
     (if rep_status r \<noteq> NSS_STATUS_SUCCESS
      then Done (rep_status r, res, arena, rep_errno r, NoBuffer)
      else
        obind (load32 (repbuf r) 0) (\<lambda>n.
          if n = 0 then Done (NSS_STATUS_NOTFOUND, res, arena, errnop, Freed)
          else if n \<noteq> 1 then Done (NSS_STATUS_TRYAGAIN, res, arena, EBADMSG, Live)
          else
            obind (sss_nss_getgr_readrep res buffer buflen arena (drop 8 (repbuf r))
                     (replen r - 8))
              (\<lambda>(ret, res, arena, n').
                 if ret \<noteq> 0 then Done (NSS_STATUS_TRYAGAIN, res, arena, ret, Freed)
                 else Done (NSS_STATUS_SUCCESS, res, arena, errnop, Freed))))"

definition nss_sss_getgrgid_r ::
  "reply \<Rightarrow> group \<Rightarrow> size_t \<Rightarrow> byte list \<Rightarrow> size_t \<Rightarrow> int
     \<Rightarrow> (nss_status \<times> group \<times> byte list \<times> int \<times> bufstate) outcome"
where
  "nss_sss_getgrgid_r r res buffer arena buflen errnop =
     (if rep_status r \<noteq> NSS_STATUS_SUCCESS
      then Done (rep_status r, res, arena, rep_errno r, NoBuffer)
      else
        obind (load32 (repbuf r) 0) (\<lambda>n.
          if n = 0 then Done (NSS_STATUS_NOTFOUND, res, arena, errnop, Freed)
          else if n \<noteq> 1 then Done (NSS_STATUS_TRYAGAIN, res, arena, EBADMSG, Live)
          else
            obind (sss_nss_getgr_readrep res buffer buflen arena (drop 8 (repbuf r))
                     (replen r - 8))
              (\<lambda>(ret, res, arena, n').
                 if ret \<noteq> 0 then Done (NSS_STATUS_TRYAGAIN, res, arena, ret, Freed)
                 else Done (NSS_STATUS_SUCCESS, res, arena, errnop, Freed))))"

subsection \<open>The enumeration cursor\<close>

text \<open>
  The static \<open>sss_nss_getgrent_data\<close> (lines 32-36); \<open>data\<close> is \<open>None\<close> for the NULL
  pointer and holds the bytes of the batch otherwise.
\<close>

record getgrent_data =
  len :: size_t
  ptr :: size_t
  data :: "byte list option"

text \<open>Lines 38-46. Freeing the batch leaves no trace but the NULL pointer.\<close>

definition sss_nss_getgrent_data_clean :: "getgrent_data \<Rightarrow> getgrent_data" where
  "sss_nss_getgrent_data_clean st = st\<lparr>data := None, len := 0, ptr := 0\<rparr>"

text \<open>
  Lines 326-342 and 408-424: \<open>_nss_sss_setgrent\<close> and \<open>_nss_sss_endgrent\<close>. The reply of the
  channel has no buffer (the call passes NULL for it). The result is the status, the cursor
  and the global \<open>errno\<close>.
\<close>

definition nss_sss_setgrent :: "reply \<Rightarrow> getgrent_data \<Rightarrow> int \<Rightarrow> nss_status \<times> getgrent_data \<times> int" where
  "nss_sss_setgrent r st errno =
     (let st = sss_nss_getgrent_data_clean st in
      if rep_status r \<noteq> NSS_STATUS_SUCCESS then (rep_status r, st, rep_errno r)
      else (NSS_STATUS_SUCCESS, st, errno))"

definition nss_sss_endgrent :: "reply \<Rightarrow> getgrent_data \<Rightarrow> int \<Rightarrow> nss_status \<times> getgrent_data \<times> int" where
  "nss_sss_endgrent r st errno =
     (let st = sss_nss_getgrent_data_clean st in
      if rep_status r \<noteq> NSS_STATUS_SUCCESS then (rep_status r, st, rep_errno r)
      else (NSS_STATUS_SUCCESS, st, errno))"

text \<open>Lines 400-402: the cursor that holds a freshly fetched batch.\<close>

definition getgrent_store :: "reply \<Rightarrow> getgrent_data \<Rightarrow> getgrent_data" where
  "getgrent_store r st = st\<lparr>data := Some (repbuf r), len := replen r, ptr := 8\<rparr>"

text \<open>
  Lines 344-406: \<open>_nss_sss_getgrent_r\<close>. The function calls itself after it has stored a
  batch, and each such call is preceded by one request to the channel. \<open>chan\<close> lists the
  replies that the channel gives to the coming requests, in order; the result is \<open>None\<close>
  when the function asks for more replies than \<open>chan\<close> holds. Otherwise it is the status,
  the cursor, \<open>*result\<close>, the arena, \<open>*errnop\<close> and the replies not yet used.
\<close>

fun nss_sss_getgrent_r ::
  "reply list \<Rightarrow> getgrent_data \<Rightarrow> group \<Rightarrow> size_t \<Rightarrow> byte list \<Rightarrow> size_t \<Rightarrow> int
     \<Rightarrow> (nss_status \<times> getgrent_data \<times> group \<times> byte list \<times> int \<times> reply list) outcome option"
where
  "nss_sss_getgrent_r chan st res buffer arena buflen errnop =
     (if data st \<noteq> None \<and> ptr st < len st then
        (case sss_nss_getgr_readrep res buffer buflen arena
                (drop (unat (ptr st)) (the (data st))) (len st - ptr st) of
           Fault e \<Rightarrow> Some (Fault e)
         | Done (ret, res', arena', n') \<Rightarrow>
             if ret \<noteq> 0 then Some (Done (NSS_STATUS_TRYAGAIN, st, res', arena', ret, chan))
             else Some (Done (NSS_STATUS_SUCCESS, st\<lparr>ptr := len st - n'\<rparr>, res', arena',
                               errnop, chan)))
      else
        (let st = sss_nss_getgrent_data_clean st in
         case chan of
           [] \<Rightarrow> None
         | r # chan' \<Rightarrow>
             if rep_status r \<noteq> NSS_STATUS_SUCCESS
             then Some (Done (rep_status r, st, res, arena, rep_errno r, chan'))
             else
               (case load32 (repbuf r) 0 of
                  Fault e \<Rightarrow> Some (Fault e)
                | Done n \<Rightarrow>
                    if n = 0 \<or> replen r - 8 = 0
                    then Some (Done (NSS_STATUS_NOTFOUND, st, res, arena, errnop, chan'))
                    else nss_sss_getgrent_r chan' (getgrent_store r st) res buffer arena buflen
                           errnop)))"

text \<open>
  The invariant of the cursor: \<open>Closed\<close> is the NULL pointer; in the \<open>Active\<close> state the
  offset does not exceed the length.
\<close>

definition cursor_inv :: "getgrent_data \<Rightarrow> bool" where
  "cursor_inv st = (data st \<noteq> None \<longrightarrow> ptr st \<le> len st)"

subsection \<open>Reading a decoded record back\<close>

text \<open>
  What a caller sees through the pointers of a decoded record: the C string that starts at an
  offset of the arena, the pointer stored in a slot of the member table, and the member
  strings reached through the first \<open>n\<close> slots of the table at offset \<open>mem_off\<close>.
\<close>

definition arena_str :: "byte list \<Rightarrow> nat \<Rightarrow> byte list" where
  "arena_str arena off = takeWhile (\<lambda>c. c \<noteq> 0) (drop off arena)"

definition load_ptr :: "byte list \<Rightarrow> nat \<Rightarrow> size_t" where
  "load_ptr arena off = le_word (take 8 (drop off arena))"

definition decoded_members :: "size_t \<Rightarrow> byte list \<Rightarrow> nat \<Rightarrow> nat \<Rightarrow> byte list list" where
  "decoded_members buffer arena mem_off n =
     map (\<lambda>k. arena_str arena (unat (load_ptr arena (mem_off + 8 * k) - buffer))) [0..<n]"

text \<open>
  The wire format of one record, as the comment in lines 61-69 gives it: the 64-bit gid, the
  32-bit number of members, then the 0-terminated strings: name, passwd, members.
\<close>

definition wire_strings :: "byte list \<Rightarrow> byte list \<Rightarrow> byte list list \<Rightarrow> byte list" where
  "wire_strings name passwd members =
     name @ [0] @ passwd @ [0] @ concat (map (\<lambda>m. m @ [0]) members)"

definition wire_record :: "uint64_t \<Rightarrow> uint32_t \<Rightarrow> byte list \<Rightarrow> byte list \<Rightarrow> byte list list \<Rightarrow> byte list" where
  "wire_record gid mem_num name passwd members =
     le_bytes 8 gid @ le_bytes 4 mem_num @ wire_strings name passwd members"

text \<open>
  The bytes a record takes on the wire, counted from its fields: the 12 bytes of the header
  and each string with its terminator.
\<close>

definition field_bytes :: "byte list \<Rightarrow> byte list \<Rightarrow> byte list list \<Rightarrow> nat" where
  "field_bytes name passwd members =
     12 + (length name + 1) + (length passwd + 1) + sum_list (map (\<lambda>m. length m + 1) members)"

section \<open>Properties of the decoder\<close>

text \<open>
  C10. A source length \<open>n\<close> below 21 makes the decoder return \<open>EBADMSG\<close> at once. The result
  holds for every source memory \<open>buf\<close>, the empty one included, where any read would be a
  fault: no header field is read. The group record and the arena come back as they were
  passed: nothing is written. A complete minimal record (empty name, empty passwd, no
  member) has 14 bytes and is rejected in this way.
\<close>

theorem readrep_short_frame:
  "n < 21 \<Longrightarrow>
     sss_nss_getgr_readrep res buffer buflen arena buf n = Done (EBADMSG, res, arena, n)"
  by (simp add: sss_nss_getgr_readrep_def)

theorem readrep_short_frame_witness:
  "(14 :: size_t) < 21 \<and>
   wire_record 10 0 [] [] [] = [10, 0, 0, 0, 0, 0, 0, 0, 0, 0, 0, 0, 0, 0] \<and>
   sss_nss_getgr_readrep \<lparr>gr_name = 0, gr_passwd = 0, gr_gid = 0, gr_mem = 0\<rparr> 4096 64
     (replicate 64 170) (wire_record 10 0 [] [] []) 14
   = Done (EBADMSG, \<lparr>gr_name = 0, gr_passwd = 0, gr_gid = 0, gr_mem = 0\<rparr>, replicate 64 170, 14)"
proof -
  have h: "(14 :: size_t) < 21" by simp
  have w: "wire_record 10 0 [] [] [] = [10, 0, 0, 0, 0, 0, 0, 0, 0, 0, 0, 0, 0, 0]"
    by code_simp
  show ?thesis using h w readrep_short_frame [OF h] by simp
qed

text \<open>
  C1. The record with name "a", passwd "x" and the one member "root" has 21 bytes and needs
  an arena of 25 bytes: 4 for name and passwd, 16 for the two slots of the member table, 5
  for the member. The remaining capacity \<open>dlen\<close> is a \<open>size_t\<close>: subtracting the table size
  from it wraps around, and the test \<open>0 > dlen\<close> of line 132 is never true. With an arena of
  4 bytes the decoder goes on to store the terminating NULL of the table at offset 12, outside
  the arena. With an arena of 20 bytes the table fits, no byte of the member is copied, and
  the decoder reads the arena at offset 20, outside it, and has no way left to \<open>ENOMEM\<close>.
\<close>

theorem readrep_small_arena_overrun:
  "sss_nss_getgr_readrep \<lparr>gr_name = 0, gr_passwd = 0, gr_gid = 0, gr_mem = 0\<rparr> 4096 4
     (replicate 4 170) (wire_record 10 1 [97] [120] [[114, 111, 111, 116]]) 21
   = Fault (WriteOOB 12) \<and>
   sss_nss_getgr_readrep \<lparr>gr_name = 0, gr_passwd = 0, gr_gid = 0, gr_mem = 0\<rparr> 4096 20
     (replicate 20 170) (wire_record 10 1 [97] [120] [[114, 111, 111, 116]]) 21
   = Fault (ReadOOB 20)"
  by code_simp

text \<open>
  C2. A source of 21 bytes that announces one member and ends inside it, "rootx" with no
  terminator. The arena has 64 bytes. The member loop leaves with the source exhausted; the
  test \<open>i > slen\<close> of line 148 is never true, since \<open>i\<close> stops at \<open>slen\<close>. The decoder
  returns 0, whatever the arena held before: the two calls differ in the fill byte only.
\<close>

theorem readrep_truncated_member_accepted:
  "sss_nss_getgr_readrep \<lparr>gr_name = 0, gr_passwd = 0, gr_gid = 0, gr_mem = 0\<rparr> 4096 64
     (replicate 64 170)
     [10, 0, 0, 0, 0, 0, 0, 0, 1, 0, 0, 0, 97, 0, 120, 0, 114, 111, 111, 116, 120] 21
   = Done (0, \<lparr>gr_name = 4096, gr_passwd = 4098, gr_gid = 10, gr_mem = 4100\<rparr>,
       [97, 0, 120, 0, 20, 16, 0, 0, 0, 0, 0, 0, 0, 0, 0, 0, 0, 0, 0, 0, 114, 111, 111, 116, 120]
         @ replicate 39 170, 0) \<and>
   sss_nss_getgr_readrep \<lparr>gr_name = 0, gr_passwd = 0, gr_gid = 0, gr_mem = 0\<rparr> 4096 64
     (replicate 64 0)
     [10, 0, 0, 0, 0, 0, 0, 0, 1, 0, 0, 0, 97, 0, 120, 0, 114, 111, 111, 116, 120] 21
   = Done (0, \<lparr>gr_name = 4096, gr_passwd = 4098, gr_gid = 10, gr_mem = 4100\<rparr>,
       [97, 0, 120, 0, 20, 16, 0, 0, 0, 0, 0, 0, 0, 0, 0, 0, 0, 0, 0, 0, 114, 111, 111, 116, 120]
         @ replicate 39 0, 0)"
  by code_simp

text \<open>
  C9. The bytes consumed are the length passed in minus the length passed back. On the source
  of 21 bytes that announces two members and ends inside the first one, decoded into a zeroed
  arena, the decoder returns 0 and passes back the length 0: it has consumed 21 bytes. The
  record it hands out has the name "a", the passwd "x" and the members "rootx" and "", whose
  lengths with their terminators and the 12 header bytes make 23.
\<close>

theorem readrep_consumed_not_field_bytes:
  "\<exists>res arena.
     sss_nss_getgr_readrep \<lparr>gr_name = 0, gr_passwd = 0, gr_gid = 0, gr_mem = 0\<rparr> 4096 64
       (replicate 64 0)
       [10, 0, 0, 0, 0, 0, 0, 0, 2, 0, 0, 0, 97, 0, 120, 0, 114, 111, 111, 116, 120] 21
     = Done (0, res, arena, 0) \<and>
     arena_str arena (unat (gr_name res - 4096)) = [97] \<and>
     arena_str arena (unat (gr_passwd res - 4096)) = [120] \<and>
     decoded_members 4096 arena (unat (gr_mem res - 4096)) 2 = [[114, 111, 111, 116, 120], []] \<and>
     load_ptr arena (unat (gr_mem res - 4096) + 8 * 2) = 0 \<and>
     field_bytes [97] [120] [[114, 111, 111, 116, 120], []] = 23 \<and>
     unat ((21 :: size_t) - 0) = 21"
proof -
  have run:
    "sss_nss_getgr_readrep \<lparr>gr_name = 0, gr_passwd = 0, gr_gid = 0, gr_mem = 0\<rparr> 4096 64
       (replicate 64 0)
       [10, 0, 0, 0, 0, 0, 0, 0, 2, 0, 0, 0, 97, 0, 120, 0, 114, 111, 111, 116, 120] 21
     = Done (0, \<lparr>gr_name = 4096, gr_passwd = 4098, gr_gid = 10, gr_mem = 4100\<rparr>,
         [97, 0, 120, 0, 28, 16, 0, 0, 0, 0, 0, 0, 34, 16, 0, 0, 0, 0, 0, 0, 0, 0, 0, 0, 0, 0, 0,
          0, 114, 111, 111, 116, 120] @ replicate 31 0, 0)"
    by code_simp
  have obs:
    "arena_str ([97, 0, 120, 0, 28, 16, 0, 0, 0, 0, 0, 0, 34, 16, 0, 0, 0, 0, 0, 0, 0, 0, 0, 0, 0,
        0, 0, 0, 114, 111, 111, 116, 120] @ replicate 31 0) (unat ((4096 :: size_t) - 4096)) = [97]
     \<and> arena_str ([97, 0, 120, 0, 28, 16, 0, 0, 0, 0, 0, 0, 34, 16, 0, 0, 0, 0, 0, 0, 0, 0, 0, 0, 0,
        0, 0, 0, 114, 111, 111, 116, 120] @ replicate 31 0) (unat ((4098 :: size_t) - 4096)) = [120]
     \<and> decoded_members 4096 ([97, 0, 120, 0, 28, 16, 0, 0, 0, 0, 0, 0, 34, 16, 0, 0, 0, 0, 0, 0,
        0, 0, 0, 0, 0, 0, 0, 0, 114, 111, 111, 116, 120] @ replicate 31 0)
          (unat ((4100 :: size_t) - 4096)) 2 = [[114, 111, 111, 116, 120], []]
     \<and> load_ptr ([97, 0, 120, 0, 28, 16, 0, 0, 0, 0, 0, 0, 34, 16, 0, 0, 0, 0, 0, 0,
        0, 0, 0, 0, 0, 0, 0, 0, 114, 111, 111, 116, 120] @ replicate 31 0)
          (unat ((4100 :: size_t) - 4096) + 8 * 2) = 0
     \<and> field_bytes [97] [120] [[114, 111, 111, 116, 120], []] = 23
     \<and> unat ((21 :: size_t) - 0) = 21"
    by code_simp
  show ?thesis
    by (rule exI, rule exI, rule conjI, rule run) (use obs in simp)
qed

section \<open>Properties of the lookups and of the membership expansion\<close>

text \<open>
  C5. A reply that announces two results. Both lookups return \<open>NSS_STATUS_TRYAGAIN\<close> with
  \<open>EBADMSG\<close>, and the reply buffer is still allocated when they return: lines 262-265 and
  310-313 have no \<open>free(repbuf)\<close>, which the branch just above them (no result) and the
  path just below them (after the decoder) both have.
\<close>

theorem lookup_multi_result_keeps_reply:
  "nss_sss_getgrnam_r
     \<lparr>rep_status = NSS_STATUS_SUCCESS,
      repbuf = [2, 0, 0, 0, 0, 0, 0, 0]
        @ wire_record 10 1 [97] [120] [[114, 111, 111, 116]]
        @ wire_record 11 1 [98] [120] [[114, 111, 111, 116]],
      rep_errno = 0\<rparr>
     \<lparr>gr_name = 0, gr_passwd = 0, gr_gid = 0, gr_mem = 0\<rparr> 4096 (replicate 64 0) 64 0
   = Done (NSS_STATUS_TRYAGAIN, \<lparr>gr_name = 0, gr_passwd = 0, gr_gid = 0, gr_mem = 0\<rparr>,
       replicate 64 0, EBADMSG, Live) \<and>
   nss_sss_getgrgid_r
     \<lparr>rep_status = NSS_STATUS_SUCCESS,
      repbuf = [2, 0, 0, 0, 0, 0, 0, 0]
        @ wire_record 10 1 [97] [120] [[114, 111, 111, 116]]
        @ wire_record 11 1 [98] [120] [[114, 111, 111, 116]],
      rep_errno = 0\<rparr>
     \<lparr>gr_name = 0, gr_passwd = 0, gr_gid = 0, gr_mem = 0\<rparr> 4096 (replicate 64 0) 64 0
   = Done (NSS_STATUS_TRYAGAIN, \<lparr>gr_name = 0, gr_passwd = 0, gr_gid = 0, gr_mem = 0\<rparr>,
       replicate 64 0, EBADMSG, Live)"
  by code_simp

text \<open>
  C8. When the array has to grow (the free entries \<open>size - start\<close> are fewer than the ids
  of the reply) and \<open>realloc\<close> fails, the call returns \<open>NSS_STATUS_TRYAGAIN\<close> with
  \<open>ENOMEM\<close> in \<open>*errnop\<close>; \<open>*start\<close>, \<open>*size\<close> and \<open>*groups\<close> are what they were, and
  the reply buffer has been freed.
\<close>

theorem initgroups_realloc_failure:
  assumes "rep_status r = NSS_STATUS_SUCCESS"
    and "load32 (repbuf r) 0 = Done num_ret"
    and "num_ret \<noteq> 0"
    and "sizep - start < uint num_ret"
    and "\<not> realloc_ok"
  shows "nss_sss_initgroups_dyn r realloc_ok fill start sizep groups limit errnop
           = Done (NSS_STATUS_TRYAGAIN, start, sizep, groups, ENOMEM, Freed)"
  using assms by (simp add: nss_sss_initgroups_dyn_def obind_def Let_def)

theorem initgroups_realloc_failure_witness:
  "rep_status \<lparr>rep_status = NSS_STATUS_SUCCESS,
               repbuf = [3, 0, 0, 0, 0, 0, 0, 0] @ le_bytes 8 (100 :: uint64_t)
                 @ le_bytes 8 (101 :: uint64_t) @ le_bytes 8 (102 :: uint64_t),
               rep_errno = 0\<rparr> = NSS_STATUS_SUCCESS \<and>
   load32 (repbuf \<lparr>rep_status = NSS_STATUS_SUCCESS,
               repbuf = [3, 0, 0, 0, 0, 0, 0, 0] @ le_bytes 8 (100 :: uint64_t)
                 @ le_bytes 8 (101 :: uint64_t) @ le_bytes 8 (102 :: uint64_t),
               rep_errno = 0\<rparr>) 0 = Done 3 \<and>
   (3 :: uint32_t) \<noteq> 0 \<and> (5 :: int) - 3 < uint (3 :: uint32_t) \<and> \<not> False \<and>
   nss_sss_initgroups_dyn
     \<lparr>rep_status = NSS_STATUS_SUCCESS,
      repbuf = [3, 0, 0, 0, 0, 0, 0, 0] @ le_bytes 8 (100 :: uint64_t)
        @ le_bytes 8 (101 :: uint64_t) @ le_bytes 8 (102 :: uint64_t),
      rep_errno = 0\<rparr> False 0 3 5 [1, 2, 3, 0, 0] 0 0
   = Done (NSS_STATUS_TRYAGAIN, 3, 5, [1, 2, 3, 0, 0], ENOMEM, Freed)"
proof -
  let ?r = "\<lparr>rep_status = NSS_STATUS_SUCCESS,
               repbuf = [3, 0, 0, 0, 0, 0, 0, 0] @ le_bytes 8 (100 :: uint64_t)
                 @ le_bytes 8 (101 :: uint64_t) @ le_bytes 8 (102 :: uint64_t),
               rep_errno = 0\<rparr>"
  have h1: "rep_status ?r = NSS_STATUS_SUCCESS" by simp
  have h2: "load32 (repbuf ?r) 0 = Done 3" by code_simp
  have h3: "(3 :: uint32_t) \<noteq> 0" by simp
  have h4: "(5 :: int) - 3 < uint (3 :: uint32_t)" by simp
  have h5: "\<not> False" by simp
  from initgroups_realloc_failure [OF h1 h2 h3 h4 h5, of 0 "[1, 2, 3, 0, 0]" 0 0] h1 h2 h3 h4
  show ?thesis by simp
qed

declare copy_gids.simps [simp del]

text \<open>The \<open>k\<close>-th id of a membership reply, narrowed to \<open>gid_t\<close>.\<close>

definition reply_gid :: "byte list \<Rightarrow> nat \<Rightarrow> gid_t" where
  "reply_gid rbuf k = ucast (le_word (take 8 (drop (8 + 8 * k) rbuf)) :: uint64_t)"

lemma copy_gids_run:
  assumes "0 \<le> l" and "0 \<le> start" and "8 + 8 * nat max_ret \<le> length rbuf"
    and "start + (max_ret - l) \<le> int (length groups)"
  shows "\<exists>g'. copy_gids rbuf max_ret l start groups = Done (start + max 0 (max_ret - l), g') \<and>
           length g' = length groups \<and>
           (\<forall>k. l \<le> k \<and> k < max_ret \<longrightarrow> g' ! nat (start + (k - l)) = reply_gid rbuf (nat k)) \<and>
           (\<forall>j < nat start. g' ! j = groups ! j)"
  using assms
proof (induction rbuf max_ret l start groups rule: copy_gids.induct)
  case (1 rbuf max_ret l start groups)
  show ?case
  proof (cases "l < max_ret")
    case False
    then show ?thesis by (subst copy_gids.simps) auto
  next
    case True
    with "1.prems" have ld: "load64 rbuf (8 + 8 * nat l)
        = Done (le_word (take 8 (drop (8 + 8 * nat l) rbuf)))"
      by (simp add: load64_def)
    from True "1.prems" have inb: "0 \<le> start \<and> nat start < length groups" by linarith
    let ?v = "le_word (take 8 (drop (8 + 8 * nat l) rbuf)) :: uint64_t"
    let ?g = "groups[nat start := ucast ?v]"
    from True "1.prems" have pre: "0 \<le> l + 1" "0 \<le> start + 1" "8 + 8 * nat max_ret \<le> length rbuf"
      "start + 1 + (max_ret - (l + 1)) \<le> int (length ?g)" by simp_all
    from "1.IH" [OF True ld inb pre] obtain g' where
      run: "copy_gids rbuf max_ret (l + 1) (start + 1) ?g
              = Done (start + 1 + max 0 (max_ret - (l + 1)), g')" and
      len: "length g' = length ?g" and
      ids: "\<forall>k. l + 1 \<le> k \<and> k < max_ret \<longrightarrow>
              g' ! nat (start + 1 + (k - (l + 1))) = reply_gid rbuf (nat k)" and
      frame: "\<forall>j < nat (start + 1). g' ! j = ?g ! j"
      by blast
    have eq: "copy_gids rbuf max_ret l start groups = Done (start + max 0 (max_ret - l), g')"
      using True ld inb run by (subst copy_gids.simps) (simp add: max_def)
    have first: "g' ! nat start = reply_gid rbuf (nat l)"
      using frame inb by (simp add: reply_gid_def)
    have ids': "\<forall>k. l \<le> k \<and> k < max_ret \<longrightarrow> g' ! nat (start + (k - l)) = reply_gid rbuf (nat k)"
    proof (intro allI impI)
      fix k assume k: "l \<le> k \<and> k < max_ret"
      show "g' ! nat (start + (k - l)) = reply_gid rbuf (nat k)"
      proof (cases "k = l")
        case True
        with first show ?thesis by simp
      next
        case False
        with k have "l + 1 \<le> k \<and> k < max_ret" by simp
        with ids have "g' ! nat (start + 1 + (k - (l + 1))) = reply_gid rbuf (nat k)" by blast
        moreover have "start + 1 + (k - (l + 1)) = start + (k - l)" by simp
        ultimately show ?thesis by simp
      qed
    qed
    have frame': "\<forall>j < nat start. g' ! j = groups ! j"
      using frame inb by simp
    from eq len ids' frame' show ?thesis by simp
  qed
qed

text \<open>
  C4. As the claim states it, it fails when the array does not have to grow: the clamp of
  lines 207-210 sits inside the branch of line 202. With \<open>limit = 6\<close>, \<open>size = 10\<close>,
  \<open>start = 7\<close> and a reply of 2 ids, \<open>size + count\<close> exceeds \<open>limit\<close> and
  \<open>limit - start\<close> is negative, yet both ids are appended and \<open>start\<close> becomes 9. With
  \<open>limit = 6\<close>, \<open>size = 5\<close>, \<open>start = 0\<close> and a reply of 3 ids, the 3 ids are appended
  and \<open>start\<close> becomes 3, not \<open>limit - start = 6\<close>.
\<close>

theorem initgroups_no_growth_no_clamp:
  "(0 :: int) < 6 \<and> (6 :: int) < 10 + uint (2 :: uint32_t) \<and>
   nss_sss_initgroups_dyn
     \<lparr>rep_status = NSS_STATUS_SUCCESS,
      repbuf = [2, 0, 0, 0, 0, 0, 0, 0] @ le_bytes 8 (100 :: uint64_t) @ le_bytes 8 (101 :: uint64_t),
      rep_errno = 0\<rparr> True 0 7 10 [1, 2, 3, 4, 5, 6, 7, 0, 0, 0] 6 0
     = Done (NSS_STATUS_SUCCESS, 9, 10, [1, 2, 3, 4, 5, 6, 7, 100, 101, 0], 0, Live) \<and>
   (9 :: int) \<noteq> 7 + max 0 (6 - 7) \<and>
   (6 :: int) < 5 + uint (3 :: uint32_t) \<and>
   nss_sss_initgroups_dyn
     \<lparr>rep_status = NSS_STATUS_SUCCESS,
      repbuf = [3, 0, 0, 0, 0, 0, 0, 0] @ le_bytes 8 (100 :: uint64_t) @ le_bytes 8 (101 :: uint64_t)
                 @ le_bytes 8 (102 :: uint64_t),
      rep_errno = 0\<rparr> True 0 0 5 [0, 0, 0, 0, 0] 6 0
     = Done (NSS_STATUS_SUCCESS, 3, 5, [100, 101, 102, 0, 0], 0, Live) \<and>
   (3 :: int) \<noteq> 0 + max 0 (6 - 0)"
  by code_simp

text \<open>
  C4, amended. When the array has to grow (\<open>size - start\<close> is less than the number of ids
  of the reply), \<open>limit\<close> is positive and exceeded by \<open>size + count\<close>, \<open>realloc\<close>
  succeeds and \<open>limit - start\<close> does not exceed the count: the call returns
  \<open>NSS_STATUS_SUCCESS\<close>, \<open>*size\<close> is \<open>limit\<close>, \<open>*start\<close> has advanced by
  \<open>max 0 (limit - start)\<close>, and that many ids, the first of the reply in their order, stand
  at the indices from the old \<open>start\<close> on; the entries below the old \<open>start\<close> are kept.
  The witness is the call with \<open>size = 5\<close>, \<open>start = 3\<close>, \<open>limit = 6\<close> and ten ids.
\<close>

theorem initgroups_clamped:
  assumes "rep_status r = NSS_STATUS_SUCCESS"
    and "load32 (repbuf r) 0 = Done num_ret"
    and "num_ret \<noteq> 0"
    and "8 + 8 * unat num_ret \<le> length (repbuf r)"
    and "0 < limit"
    and "limit < sizep + uint num_ret"
    and "sizep - start < uint num_ret"
    and "realloc_ok"
    and "0 \<le> start"
    and "limit - start \<le> uint num_ret"
  shows "\<exists>groups'.
           nss_sss_initgroups_dyn r realloc_ok fill start sizep groups limit errnop
             = Done (NSS_STATUS_SUCCESS, start + max 0 (limit - start), limit, groups', errnop, Live) \<and>
           length groups' = nat limit \<and>
           (\<forall>k < nat (limit - start). groups' ! (nat start + k) = reply_gid (repbuf r) k) \<and>
           (\<forall>j. j < nat start \<and> j < nat limit \<and> j < length groups \<longrightarrow> groups' ! j = groups ! j)"
proof -
  let ?g = "realloc_gids fill groups limit"
  have lg: "length ?g = nat limit" by (simp add: realloc_gids_def)
  from assms(10) have "nat (limit - start) \<le> nat (uint num_ret)" by (rule nat_mono)
  then have "nat (limit - start) \<le> unat num_ret" by simp
  with assms(4) have p3: "8 + 8 * nat (limit - start) \<le> length (repbuf r)" by linarith
  from assms lg have p4: "start + (limit - start - 0) \<le> int (length ?g)" by simp
  from copy_gids_run [OF order_refl assms(9) p3 p4] obtain g' where
    run: "copy_gids (repbuf r) (limit - start) 0 start ?g = Done (start + max 0 (limit - start - 0), g')"
    and len: "length g' = length ?g"
    and ids: "\<forall>k. 0 \<le> k \<and> k < limit - start \<longrightarrow>
                g' ! nat (start + (k - 0)) = reply_gid (repbuf r) (nat k)"
    and frame: "\<forall>j < nat start. g' ! j = ?g ! j"
    by blast
  have eq: "nss_sss_initgroups_dyn r realloc_ok fill start sizep groups limit errnop
             = Done (NSS_STATUS_SUCCESS, start + max 0 (limit - start), limit, g', errnop, Live)"
    using assms run by (simp add: nss_sss_initgroups_dyn_def obind_def Let_def)
  have ids': "\<forall>k < nat (limit - start). g' ! (nat start + k) = reply_gid (repbuf r) k"
  proof (intro allI impI)
    fix k assume "k < nat (limit - start)"
    then have "0 \<le> int k \<and> int k < limit - start" by linarith
    with ids have "g' ! nat (start + (int k - 0)) = reply_gid (repbuf r) (nat (int k))" by blast
    moreover from assms(9) have "nat (start + (int k - 0)) = nat start + k" by linarith
    ultimately show "g' ! (nat start + k) = reply_gid (repbuf r) k" by simp
  qed
  have frame': "\<forall>j. j < nat start \<and> j < nat limit \<and> j < length groups \<longrightarrow> g' ! j = groups ! j"
    using frame by (simp add: realloc_gids_def nth_append)
  from eq len lg ids' frame' show ?thesis by auto
qed

theorem initgroups_clamped_witness:
  "rep_status \<lparr>rep_status = NSS_STATUS_SUCCESS,
      repbuf = [10, 0, 0, 0, 0, 0, 0, 0] @ concat (map (le_bytes 8)
                 [100, 101, 102, 103, 104, 105, 106, 107, 108, 109 :: uint64_t]),
      rep_errno = 0\<rparr> = NSS_STATUS_SUCCESS \<and>
   load32 (repbuf \<lparr>rep_status = NSS_STATUS_SUCCESS,
      repbuf = [10, 0, 0, 0, 0, 0, 0, 0] @ concat (map (le_bytes 8)
                 [100, 101, 102, 103, 104, 105, 106, 107, 108, 109 :: uint64_t]),
      rep_errno = 0\<rparr>) 0 = Done 10 \<and>
   (10 :: uint32_t) \<noteq> 0 \<and>
   8 + 8 * unat (10 :: uint32_t) \<le> length (repbuf \<lparr>rep_status = NSS_STATUS_SUCCESS,
      repbuf = [10, 0, 0, 0, 0, 0, 0, 0] @ concat (map (le_bytes 8)
                 [100, 101, 102, 103, 104, 105, 106, 107, 108, 109 :: uint64_t]),
      rep_errno = 0\<rparr>) \<and>
   (0 :: int) < 6 \<and> (6 :: int) < 5 + uint (10 :: uint32_t) \<and> (5 :: int) - 3 < uint (10 :: uint32_t) \<and>
   True \<and> (0 :: int) \<le> 3 \<and> (6 :: int) - 3 \<le> uint (10 :: uint32_t) \<and>
   nss_sss_initgroups_dyn \<lparr>rep_status = NSS_STATUS_SUCCESS,
      repbuf = [10, 0, 0, 0, 0, 0, 0, 0] @ concat (map (le_bytes 8)
                 [100, 101, 102, 103, 104, 105, 106, 107, 108, 109 :: uint64_t]),
      rep_errno = 0\<rparr> True 0 3 5 [1, 2, 3, 0, 0] 6 0
     = Done (NSS_STATUS_SUCCESS, 6, 6, [1, 2, 3, 100, 101, 102], 0, Live) \<and>
   (\<exists>groups'.
      nss_sss_initgroups_dyn \<lparr>rep_status = NSS_STATUS_SUCCESS,
      repbuf = [10, 0, 0, 0, 0, 0, 0, 0] @ concat (map (le_bytes 8)
                 [100, 101, 102, 103, 104, 105, 106, 107, 108, 109 :: uint64_t]),
      rep_errno = 0\<rparr> True 0 3 5 [1, 2, 3, 0, 0] 6 0
        = Done (NSS_STATUS_SUCCESS, 3 + max 0 (6 - 3), 6, groups', 0, Live) \<and>
      length groups' = nat 6 \<and>
      (\<forall>k < nat (6 - 3). groups' ! (nat 3 + k) = reply_gid (repbuf \<lparr>rep_status = NSS_STATUS_SUCCESS,
      repbuf = [10, 0, 0, 0, 0, 0, 0, 0] @ concat (map (le_bytes 8)
                 [100, 101, 102, 103, 104, 105, 106, 107, 108, 109 :: uint64_t]),
      rep_errno = 0\<rparr>) k) \<and>
      (\<forall>j. j < nat 3 \<and> j < nat 6 \<and> j < length [1, 2, 3, 0, 0 :: gid_t]
             \<longrightarrow> groups' ! j = [1, 2, 3, 0, 0] ! j))"
proof -
  let ?r = "\<lparr>rep_status = NSS_STATUS_SUCCESS,
      repbuf = [10, 0, 0, 0, 0, 0, 0, 0] @ concat (map (le_bytes 8)
                 [100, 101, 102, 103, 104, 105, 106, 107, 108, 109 :: uint64_t]),
      rep_errno = 0\<rparr>"
  have h1: "rep_status ?r = NSS_STATUS_SUCCESS" by simp
  have h2: "load32 (repbuf ?r) 0 = Done 10" by code_simp
  have h3: "(10 :: uint32_t) \<noteq> 0" by simp
  have h4: "8 + 8 * unat (10 :: uint32_t) \<le> length (repbuf ?r)" by code_simp
  have h5: "(0 :: int) < 6" by simp
  have h6: "(6 :: int) < 5 + uint (10 :: uint32_t)" by simp
  have h7: "(5 :: int) - 3 < uint (10 :: uint32_t)" by simp
  have h8: "True" by simp
  have h9: "(0 :: int) \<le> 3" by simp
  have h10: "(6 :: int) - 3 \<le> uint (10 :: uint32_t)" by simp
  have run: "nss_sss_initgroups_dyn ?r True 0 3 5 [1, 2, 3, 0, 0] 6 0
     = Done (NSS_STATUS_SUCCESS, 6, 6, [1, 2, 3, 100, 101, 102], 0, Live)"
    by code_simp
  note inst = initgroups_clamped [OF h1 h2 h3 h4 h5 h6 h7 h8 h9 h10, of 0 "[1, 2, 3, 0, 0]" 0]
  show ?thesis
    by (intro conjI h1 h2 h3 h4 h5 h6 h7 h8 h9 h10 run inst)
qed

section \<open>Properties of the enumeration cursor\<close>

text \<open>
  C6. A call on a cursor that holds a batch with bytes left runs the decoder on the rest of
  the batch. When the decoder returns an error code, the call returns that code with
  \<open>NSS_STATUS_TRYAGAIN\<close> and the cursor it was given. When the decoder returns 0, buffer
  and length of the cursor stay and its offset grows by the bytes consumed: the length
  passed to the decoder minus the length it passed back.
\<close>

theorem getgrent_decode_step:
  assumes "data st = Some d"
    and "ptr st < len st"
    and "sss_nss_getgr_readrep res buffer buflen arena (drop (unat (ptr st)) d) (len st - ptr st)
           = Done (ret, res', arena', n')"
  shows "nss_sss_getgrent_r chan st res buffer arena buflen errnop =
           (if ret \<noteq> 0 then Some (Done (NSS_STATUS_TRYAGAIN, st, res', arena', ret, chan))
            else Some (Done (NSS_STATUS_SUCCESS,
                   st\<lparr>ptr := ptr st + ((len st - ptr st) - n')\<rparr>, res', arena', errnop, chan)))"
  using assms by simp

theorem getgrent_decode_step_witness:
  "data \<lparr>len = 39, ptr = 8,
          data = Some ([1, 0, 0, 0, 0, 0, 0, 0] @ wire_record 10 2 [119, 104, 101, 101, 108] [120]
                    [[114, 111, 111, 116], [97, 108, 105, 99, 101]])\<rparr>
     = Some ([1, 0, 0, 0, 0, 0, 0, 0] @ wire_record 10 2 [119, 104, 101, 101, 108] [120]
                    [[114, 111, 111, 116], [97, 108, 105, 99, 101]]) \<and>
   ptr \<lparr>len = 39, ptr = 8,
          data = Some ([1, 0, 0, 0, 0, 0, 0, 0] @ wire_record 10 2 [119, 104, 101, 101, 108] [120]
                    [[114, 111, 111, 116], [97, 108, 105, 99, 101]])\<rparr>
     < len \<lparr>len = 39, ptr = 8,
          data = Some ([1, 0, 0, 0, 0, 0, 0, 0] @ wire_record 10 2 [119, 104, 101, 101, 108] [120]
                    [[114, 111, 111, 116], [97, 108, 105, 99, 101]])\<rparr> \<and>
   nss_sss_getgrent_r []
     \<lparr>len = 39, ptr = 8,
      data = Some ([1, 0, 0, 0, 0, 0, 0, 0] @ wire_record 10 2 [119, 104, 101, 101, 108] [120]
                    [[114, 111, 111, 116], [97, 108, 105, 99, 101]])\<rparr>
     \<lparr>gr_name = 0, gr_passwd = 0, gr_gid = 0, gr_mem = 0\<rparr> 4096 [0, 0] 2 0
   = Some (Done (NSS_STATUS_TRYAGAIN,
       \<lparr>len = 39, ptr = 8,
        data = Some ([1, 0, 0, 0, 0, 0, 0, 0] @ wire_record 10 2 [119, 104, 101, 101, 108] [120]
                    [[114, 111, 111, 116], [97, 108, 105, 99, 101]])\<rparr>,
       \<lparr>gr_name = 4096, gr_passwd = 0, gr_gid = 10, gr_mem = 0\<rparr>, [119, 104], ENOMEM, [])) \<and>
   nss_sss_getgrent_r []
     \<lparr>len = 39, ptr = 8,
      data = Some ([1, 0, 0, 0, 0, 0, 0, 0] @ wire_record 10 2 [119, 104, 101, 101, 108] [120]
                    [[114, 111, 111, 116], [97, 108, 105, 99, 101]])\<rparr>
     \<lparr>gr_name = 0, gr_passwd = 0, gr_gid = 0, gr_mem = 0\<rparr> 4096 (replicate 43 0) 43 0
   = Some (Done (NSS_STATUS_SUCCESS,
       \<lparr>len = 39, ptr = 39,
        data = Some ([1, 0, 0, 0, 0, 0, 0, 0] @ wire_record 10 2 [119, 104, 101, 101, 108] [120]
                    [[114, 111, 111, 116], [97, 108, 105, 99, 101]])\<rparr>,
       \<lparr>gr_name = 4096, gr_passwd = 4102, gr_gid = 10, gr_mem = 4104\<rparr>,
       [119, 104, 101, 101, 108, 0, 120, 0, 32, 16, 0, 0, 0, 0, 0, 0, 37, 16, 0, 0, 0, 0, 0, 0,
        0, 0, 0, 0, 0, 0, 0, 0, 114, 111, 111, 116, 0, 97, 108, 105, 99, 101, 0], 0, []))"
proof -
  let ?d = "[1, 0, 0, 0, 0, 0, 0, 0] @ wire_record 10 2 [119, 104, 101, 101, 108] [120]
                    [[114, 111, 111, 116], [97, 108, 105, 99, 101]]"
  let ?st = "\<lparr>len = 39, ptr = 8, data = Some ?d\<rparr>"
  let ?res = "\<lparr>gr_name = 0, gr_passwd = 0, gr_gid = 0, gr_mem = 0\<rparr>"
  have h1: "data ?st = Some ?d" by simp
  have h2: "ptr ?st < len ?st" by simp
  have f: "sss_nss_getgr_readrep ?res 4096 2 [0, 0] (drop (unat (ptr ?st)) ?d) (len ?st - ptr ?st)
             = Done (ENOMEM, \<lparr>gr_name = 4096, gr_passwd = 0, gr_gid = 10, gr_mem = 0\<rparr>,
                 [119, 104], 31)"
    by code_simp
  have g: "sss_nss_getgr_readrep ?res 4096 43 (replicate 43 0) (drop (unat (ptr ?st)) ?d)
             (len ?st - ptr ?st)
             = Done (0, \<lparr>gr_name = 4096, gr_passwd = 4102, gr_gid = 10, gr_mem = 4104\<rparr>,
       [119, 104, 101, 101, 108, 0, 120, 0, 32, 16, 0, 0, 0, 0, 0, 0, 37, 16, 0, 0, 0, 0, 0, 0,
        0, 0, 0, 0, 0, 0, 0, 0, 114, 111, 111, 116, 0, 97, 108, 105, 99, 101, 0], 0)"
    by code_simp
  have e: "ENOMEM \<noteq> 0" by (simp add: ENOMEM_def)
  from getgrent_decode_step [OF h1 h2 f, of "[]" 0] getgrent_decode_step [OF h1 h2 g, of "[]" 0] e
  show ?thesis by simp
qed

lemma getgrent_decode_inv:
  assumes "data st \<noteq> None" and "ptr st < len st"
    and "nss_sss_getgrent_r chan st res buffer arena buflen errnop = Some (Done (s, st', rest))"
  shows "cursor_inv st'"
proof (cases "sss_nss_getgr_readrep res buffer buflen arena
                (drop (unat (ptr st)) (the (data st))) (len st - ptr st)")
  case (Fault e)
  with assms show ?thesis by simp
next
  case (Done x)
  obtain ret res' arena' n' where x: "x = (ret, res', arena', n')" by (cases x) auto
  show ?thesis
  proof (cases "ret = 0")
    case False
    with assms Done x have "st' = st" by simp
    with assms(2) show ?thesis by (auto simp: cursor_inv_def)
  next
    case True
    with assms Done x have st': "st' = st\<lparr>ptr := len st - n'\<rparr>" by simp
    from Done x True have "21 \<le> len st - ptr st \<and> n' \<le> len st - ptr st - 12"
      using readrep_remaining by blast
    with assms(2) have "n' \<le> len st" by unat_arith
    then have "len st - n' \<le> len st" by (simp add: word_sub_le)
    with st' show ?thesis by (simp add: cursor_inv_def)
  qed
qed

lemma clean_inv: "cursor_inv (sss_nss_getgrent_data_clean st)"
  by (simp add: cursor_inv_def sss_nss_getgrent_data_clean_def)

lemma getgrent_fetch_eq:
  assumes "\<not> (data st \<noteq> None \<and> ptr st < len st)"
  shows "nss_sss_getgrent_r chan st res buffer arena buflen errnop =
     (case chan of
        [] \<Rightarrow> None
      | r # chan' \<Rightarrow>
          if rep_status r \<noteq> NSS_STATUS_SUCCESS
          then Some (Done (rep_status r, sss_nss_getgrent_data_clean st, res, arena, rep_errno r,
                       chan'))
          else
            (case load32 (repbuf r) 0 of
               Fault e \<Rightarrow> Some (Fault e)
             | Done n \<Rightarrow>
                 if n = 0 \<or> replen r - 8 = 0
                 then Some (Done (NSS_STATUS_NOTFOUND, sss_nss_getgrent_data_clean st, res, arena,
                              errnop, chan'))
                 else nss_sss_getgrent_r chan' (getgrent_store r (sss_nss_getgrent_data_clean st))
                        res buffer arena buflen errnop))"
  by (subst nss_sss_getgrent_r.simps) (simp only: assms if_False Let_def)

lemma getgrent_cursor_inv:
  "nss_sss_getgrent_r chan st res buffer arena buflen errnop = Some (Done (s, st', rest))
     \<Longrightarrow> cursor_inv st'"
proof (induction chan arbitrary: st)
  case Nil
  show ?case
  proof (cases "data st \<noteq> None \<and> ptr st < len st")
    case True
    with Nil show ?thesis using getgrent_decode_inv by blast
  next
    case False
    from Nil show ?thesis by (simp only: getgrent_fetch_eq [OF False]) simp
  qed
next
  case (Cons r chan)
  show ?case
  proof (cases "data st \<noteq> None \<and> ptr st < len st")
    case True
    with Cons.prems show ?thesis using getgrent_decode_inv by blast
  next
    case False
    from Cons.prems show ?thesis
      apply (simp only: getgrent_fetch_eq [OF False] list.case)
      apply (simp split: if_splits outcome.splits del: nss_sss_getgrent_r.simps)
      using clean_inv apply blast
      using clean_inv apply blast
      apply (erule Cons.IH)
      done
  qed
qed

text \<open>
  C7. As the claim states it, it fails where it names the stored batch: a reply of four
  bytes with the count 1 passes the test of line 395 (\<open>replen - 8\<close> is unsigned and not 0),
  and the cursor stored by lines 400-402 has the offset 8 and the length 4. The call goes on
  with that cursor: it is the one the function passes to itself.
\<close>

theorem getgrent_store_short_reply:
  "cursor_inv \<lparr>len = 0, ptr = 0, data = None\<rparr> \<and>
   \<not> cursor_inv
       (getgrent_store \<lparr>rep_status = NSS_STATUS_SUCCESS, repbuf = [1, 0, 0, 0], rep_errno = 0\<rparr>
          (sss_nss_getgrent_data_clean \<lparr>len = 0, ptr = 0, data = None\<rparr>)) \<and>
   getgrent_store \<lparr>rep_status = NSS_STATUS_SUCCESS, repbuf = [1, 0, 0, 0], rep_errno = 0\<rparr>
          (sss_nss_getgrent_data_clean \<lparr>len = 0, ptr = 0, data = None\<rparr>)
     = \<lparr>len = 4, ptr = 8, data = Some [1, 0, 0, 0]\<rparr> \<and>
   nss_sss_getgrent_r
     [\<lparr>rep_status = NSS_STATUS_SUCCESS, repbuf = [1, 0, 0, 0], rep_errno = 0\<rparr>,
      \<lparr>rep_status = NSS_STATUS_UNAVAIL, repbuf = [], rep_errno = 5\<rparr>]
     \<lparr>len = 0, ptr = 0, data = None\<rparr>
     \<lparr>gr_name = 0, gr_passwd = 0, gr_gid = 0, gr_mem = 0\<rparr> 4096 (replicate 64 0) 64 0
   = nss_sss_getgrent_r
     [\<lparr>rep_status = NSS_STATUS_UNAVAIL, repbuf = [], rep_errno = 5\<rparr>]
     \<lparr>len = 4, ptr = 8, data = Some [1, 0, 0, 0]\<rparr>
     \<lparr>gr_name = 0, gr_passwd = 0, gr_gid = 0, gr_mem = 0\<rparr> 4096 (replicate 64 0) 64 0"
  by code_simp

text \<open>
  C7, amended. Each of the three operations returns a cursor that satisfies the invariant,
  whatever cursor it was called with. The cursor stored for a fresh batch satisfies it exactly
  when the reply length is at least 8, the size of the batch header.
\<close>

theorem cursor_inv_operations:
  "cursor_inv (fst (snd (nss_sss_setgrent r st e))) \<and>
   cursor_inv (fst (snd (nss_sss_endgrent r st e))) \<and>
   (nss_sss_getgrent_r chan st res buffer arena buflen errnop = Some (Done (s, st', rest))
      \<longrightarrow> cursor_inv st') \<and>
   (cursor_inv (getgrent_store r st) \<longleftrightarrow> 8 \<le> replen r)"
proof (intro conjI impI)
  show "cursor_inv (fst (snd (nss_sss_setgrent r st e)))"
    by (simp add: nss_sss_setgrent_def Let_def clean_inv)
  show "cursor_inv (fst (snd (nss_sss_endgrent r st e)))"
    by (simp add: nss_sss_endgrent_def Let_def clean_inv)
  show "cursor_inv (getgrent_store r st) \<longleftrightarrow> 8 \<le> replen r"
    by (simp add: cursor_inv_def getgrent_store_def)
next
  assume "nss_sss_getgrent_r chan st res buffer arena buflen errnop = Some (Done (s, st', rest))"
  then show "cursor_inv st'" by (rule getgrent_cursor_inv)
qed

theorem cursor_inv_operations_witness:
  "nss_sss_getgrent_r
     [\<lparr>rep_status = NSS_STATUS_SUCCESS,
       repbuf = [1, 0, 0, 0, 0, 0, 0, 0] @ wire_record 10 2 [119, 104, 101, 101, 108] [120]
                    [[114, 111, 111, 116], [97, 108, 105, 99, 101]], rep_errno = 0\<rparr>]
     \<lparr>len = 0, ptr = 0, data = None\<rparr>
     \<lparr>gr_name = 0, gr_passwd = 0, gr_gid = 0, gr_mem = 0\<rparr> 4096 (replicate 43 0) 43 0
   = Some (Done (NSS_STATUS_SUCCESS,
       \<lparr>len = 39, ptr = 39,
        data = Some ([1, 0, 0, 0, 0, 0, 0, 0] @ wire_record 10 2 [119, 104, 101, 101, 108] [120]
                    [[114, 111, 111, 116], [97, 108, 105, 99, 101]])\<rparr>,
       \<lparr>gr_name = 4096, gr_passwd = 4102, gr_gid = 10, gr_mem = 4104\<rparr>,
       [119, 104, 101, 101, 108, 0, 120, 0, 32, 16, 0, 0, 0, 0, 0, 0, 37, 16, 0, 0, 0, 0, 0, 0,
        0, 0, 0, 0, 0, 0, 0, 0, 114, 111, 111, 116, 0, 97, 108, 105, 99, 101, 0], 0, [])) \<and>
   cursor_inv \<lparr>len = 39, ptr = 39,
        data = Some ([1, 0, 0, 0, 0, 0, 0, 0] @ wire_record 10 2 [119, 104, 101, 101, 108] [120]
                    [[114, 111, 111, 116], [97, 108, 105, 99, 101]])\<rparr> \<and>
   8 \<le> replen \<lparr>rep_status = NSS_STATUS_SUCCESS,
       repbuf = [1, 0, 0, 0, 0, 0, 0, 0] @ wire_record 10 2 [119, 104, 101, 101, 108] [120]
                    [[114, 111, 111, 116], [97, 108, 105, 99, 101]], rep_errno = 0\<rparr> \<and>
   cursor_inv (getgrent_store \<lparr>rep_status = NSS_STATUS_SUCCESS,
       repbuf = [1, 0, 0, 0, 0, 0, 0, 0] @ wire_record 10 2 [119, 104, 101, 101, 108] [120]
                    [[114, 111, 111, 116], [97, 108, 105, 99, 101]], rep_errno = 0\<rparr>
       \<lparr>len = 0, ptr = 0, data = None\<rparr>)"
proof -
  let ?r = "\<lparr>rep_status = NSS_STATUS_SUCCESS,
       repbuf = [1, 0, 0, 0, 0, 0, 0, 0] @ wire_record 10 2 [119, 104, 101, 101, 108] [120]
                    [[114, 111, 111, 116], [97, 108, 105, 99, 101]], rep_errno = 0\<rparr>"
  let ?st = "\<lparr>len = 0, ptr = 0, data = None\<rparr>"
  let ?res = "\<lparr>gr_name = 0, gr_passwd = 0, gr_gid = 0, gr_mem = 0\<rparr>"
  have run: "nss_sss_getgrent_r [?r] ?st ?res 4096 (replicate 43 0) 43 0
   = Some (Done (NSS_STATUS_SUCCESS,
       \<lparr>len = 39, ptr = 39,
        data = Some ([1, 0, 0, 0, 0, 0, 0, 0] @ wire_record 10 2 [119, 104, 101, 101, 108] [120]
                    [[114, 111, 111, 116], [97, 108, 105, 99, 101]])\<rparr>,
       \<lparr>gr_name = 4096, gr_passwd = 4102, gr_gid = 10, gr_mem = 4104\<rparr>,
       [119, 104, 101, 101, 108, 0, 120, 0, 32, 16, 0, 0, 0, 0, 0, 0, 37, 16, 0, 0, 0, 0, 0, 0,
        0, 0, 0, 0, 0, 0, 0, 0, 114, 111, 111, 116, 0, 97, 108, 105, 99, 101, 0], 0, []))"
    by code_simp
  have big: "8 \<le> replen ?r" by code_simp
  from cursor_inv_operations [of ?r ?st 0 "[?r]" ?res 4096 "replicate 43 0" 43 0] run big
  show ?thesis by (simp del: nss_sss_getgrent_r.simps)
qed

section \<open>Decoding a well-formed record\<close>

subsection \<open>Little-endian values\<close>

lemma le_bytes_Suc: "le_bytes (Suc n) w = ucast w # le_bytes n (drop_bit 8 w)"
proof -
  have "[0..<Suc n] = 0 # map Suc [0..<n]"
    by (simp add: upt_conv_Cons map_Suc_upt del: upt_Suc)
  then show ?thesis
    by (simp add: le_bytes_def comp_def drop_bit_drop_bit add.commute del: upt_Suc)
qed

lemma le_bytes_0: "le_bytes 0 w = []"
  by (simp add: le_bytes_def)

lemma le_word_le_bytes:
  "le_word (le_bytes n w) = take_bit (8 * n) w" for w :: "'a::len word"
proof (induction n arbitrary: w)
  case 0
  show ?case by (simp add: le_bytes_0)
next
  case (Suc n)
  show ?case
    apply (simp add: le_bytes_Suc Suc.IH)
    apply (rule bit_word_eqI)
    apply (auto simp: bit_simps)
    done
qed

lemma le_word_le_bytes_64: "le_word (le_bytes 8 w) = w" for w :: "64 word"
  by (simp add: le_word_le_bytes take_bit_word_eq_self)

lemma le_word_le_bytes_32: "le_word (le_bytes 4 w) = w" for w :: "32 word"
  by (simp add: le_word_le_bytes take_bit_word_eq_self)

lemma length_le_bytes: "length (le_bytes n w) = n"
  by (simp add: le_bytes_def)

subsection \<open>Bytes written and read back\<close>

lemma length_write_bytes:
  "off + length bs \<le> length m \<Longrightarrow> length (write_bytes m off bs) = length m"
  by (simp add: write_bytes_def)

lemma nth_write_bytes:
  assumes "off + length bs \<le> length m" and "j < length m"
  shows "write_bytes m off bs ! j =
           (if off \<le> j \<and> j < off + length bs then bs ! (j - off) else m ! j)"
  using assms by (auto simp: write_bytes_def nth_append)

lemma write_bytes_single: "off < length m \<Longrightarrow> write_bytes m off [c] = m[off := c]"
  by (simp add: write_bytes_def upd_conv_take_nth_drop)

lemma write_bytes_Cons:
  assumes "off < length m"
  shows "write_bytes (m[off := c]) (Suc off) bs = write_bytes m off (c # bs)"
  using assms by (simp add: write_bytes_def take_Suc_conv_app_nth drop_update_cancel)

lemma slice_eqI:
  assumes "length a = length b" and "off + n \<le> length a"
    and "\<And>j. off \<le> j \<Longrightarrow> j < off + n \<Longrightarrow> a ! j = b ! j"
  shows "take n (drop off a) = take n (drop off b)"
proof (rule nth_equalityI)
  show "length (take n (drop off a)) = length (take n (drop off b))"
    using assms(1) by simp
next
  fix i assume "i < length (take n (drop off a))"
  then have "i < n" by simp
  with assms show "take n (drop off a) ! i = take n (drop off b) ! i" by simp
qed

lemma slice_write_bytes:
  "off + length bs \<le> length m \<Longrightarrow> take (length bs) (drop off (write_bytes m off bs)) = bs"
  by (simp add: write_bytes_def)

lemma arena_str_eq:
  assumes "take (Suc (length s)) (drop off a) = s @ [0]" and "0 \<notin> set s"
  shows "arena_str a off = s"
proof -
  have "drop off a = (s @ [0]) @ drop (Suc (length s)) (drop off a)"
    using assms(1) append_take_drop_id [of "Suc (length s)" "drop off a"] by simp
  then have "drop off a = s @ 0 # drop (Suc (length s)) (drop off a)" by simp
  then have "arena_str a off = takeWhile (\<lambda>c. c \<noteq> 0) (s @ 0 # drop (Suc (length s)) (drop off a))"
    by (simp add: arena_str_def)
  also have "\<dots> = s" using assms(2) by (auto simp: takeWhile_tail)
  finally show ?thesis .
qed

lemma drop_eq_ConsD: "drop n xs = y # ys \<Longrightarrow> n < length xs \<and> xs ! n = y \<and> drop (Suc n) xs = ys"
  by (metis Cons_nth_drop_Suc drop_eq_Nil leI list.distinct(1) list.inject)

subsection \<open>The copy loops on a terminated string\<close>

lemma copy_field_string:
  assumes "drop (12 + unat i) buf = s @ 0 # rest"
    and "0 \<notin> set s"
    and "unat i + length s < unat slen"
    and "length s < unat dlen"
    and "unat i + length s < length arena"
  shows "copy_field buf slen i dlen arena
           = Done (i + of_nat (length s), dlen - of_nat (length s),
                   write_bytes arena (unat i) (s @ [0]))"
  using assms
proof (induction s arbitrary: i dlen arena)
  case Nil
  from Nil.prems(1) have rd: "load8 buf (12 + unat i) = Done 0"
    using drop_eq_ConsD [of "12 + unat i" buf 0 rest] by (simp add: load8_def)
  from Nil.prems have c: "i < slen \<and> 0 < dlen"
    by (simp add: word_less_nat_alt)
  from Nil.prems have wr: "store8 arena (unat i) 0 = Done (arena[unat i := 0])"
    by (simp add: store8_def)
  from Nil.prems show ?case
    by (subst copy_field.simps) (simp add: c rd wr write_bytes_single)
next
  case (Cons c s)
  from Cons.prems(1) have d: "12 + unat i < length buf \<and> buf ! (12 + unat i) = c
      \<and> drop (Suc (12 + unat i)) buf = s @ 0 # rest"
    using drop_eq_ConsD [of "12 + unat i" buf c "s @ 0 # rest"] by simp
  then have rd: "load8 buf (12 + unat i) = Done c" by (simp add: load8_def)
  from Cons.prems have cnd: "i < slen \<and> 0 < dlen"
    by (simp add: word_less_nat_alt)
  from Cons.prems have wr: "store8 arena (unat i) c = Done (arena[unat i := c])"
    by (simp add: store8_def)
  from Cons.prems(2) have c0: "c \<noteq> 0" by auto
  from cnd have ui: "unat (i + 1) = Suc (unat i)" using unat_inc by blast
  from cnd have "dlen \<noteq> 0" by auto
  then have ud: "unat (dlen - 1) = unat dlen - 1" by (rule unat_minus_one)
  have ih: "copy_field buf slen (i + 1) (dlen - 1) (arena[unat i := c])
      = Done (i + 1 + of_nat (length s), dlen - 1 - of_nat (length s),
              write_bytes (arena[unat i := c]) (unat (i + 1)) (s @ [0]))"
  proof (rule Cons.IH)
    show "drop (12 + unat (i + 1)) buf = s @ 0 # rest" using d ui by simp
    show "0 \<notin> set s" using Cons.prems(2) by simp
    show "unat (i + 1) + length s < unat slen" using Cons.prems(3) ui by simp
    show "length s < unat (dlen - 1)" using Cons.prems(4) ud by simp
    show "unat (i + 1) + length s < length (arena[unat i := c])" using Cons.prems(5) ui by simp
  qed
  from Cons.prems(5) have "unat i < length arena" by simp
  then have wb: "write_bytes (arena[unat i := c]) (unat (i + 1)) (s @ [0])
      = write_bytes arena (unat i) ((c # s) @ [0])"
    using write_bytes_Cons [of "unat i" arena c "s @ [0]"] ui by simp
  show ?case
    by (subst copy_field.simps) (simp add: cnd rd wr c0 ih wb)
qed

lemma copy_member_string:
  assumes "drop (12 + unat i) buf = s @ 0 # rest"
    and "0 \<notin> set s"
    and "unat i + length s < unat slen"
    and "length s < unat dlen"
    and "unat p + length s < length arena"
    and "length arena < 2 ^ 64"
  shows "copy_member buf slen i dlen p arena
           = Done (i + of_nat (length s) + 1, dlen - of_nat (length s) - 1,
                   p + of_nat (length s), write_bytes arena (unat p) (s @ [0]))"
  using assms
proof (induction s arbitrary: i dlen p arena)
  case Nil
  from Nil.prems(1) have rd: "load8 buf (12 + unat i) = Done 0"
    using drop_eq_ConsD [of "12 + unat i" buf 0 rest] by (simp add: load8_def)
  from Nil.prems have c: "i < slen \<and> 0 < dlen"
    by (simp add: word_less_nat_alt)
  from Nil.prems have wr: "store8 arena (unat p) 0 = Done (arena[unat p := 0])"
    by (simp add: store8_def)
  from Nil.prems show ?case
    by (subst copy_member.simps) (simp add: c rd wr write_bytes_single)
next
  case (Cons c s)
  from Cons.prems(1) have d: "12 + unat i < length buf \<and> buf ! (12 + unat i) = c
      \<and> drop (Suc (12 + unat i)) buf = s @ 0 # rest"
    using drop_eq_ConsD [of "12 + unat i" buf c "s @ 0 # rest"] by simp
  then have rd: "load8 buf (12 + unat i) = Done c" by (simp add: load8_def)
  from Cons.prems have cnd: "i < slen \<and> 0 < dlen"
    by (simp add: word_less_nat_alt)
  from Cons.prems have wr: "store8 arena (unat p) c = Done (arena[unat p := c])"
    by (simp add: store8_def)
  from Cons.prems(2) have c0: "c \<noteq> 0" by auto
  from cnd have ui: "unat (i + 1) = Suc (unat i)" using unat_inc by blast
  from cnd have "dlen \<noteq> 0" by auto
  then have ud: "unat (dlen - 1) = unat dlen - 1" by (rule unat_minus_one)
  from Cons.prems(5,6) have "unat p + 1 < 2 ^ 64" by simp
  then have up: "unat (p + 1) = Suc (unat p)" by (simp add: unat_word_ariths)
  have ih: "copy_member buf slen (i + 1) (dlen - 1) (p + 1) (arena[unat p := c])
      = Done (i + 1 + of_nat (length s) + 1, dlen - 1 - of_nat (length s) - 1,
              p + 1 + of_nat (length s),
              write_bytes (arena[unat p := c]) (unat (p + 1)) (s @ [0]))"
  proof (rule Cons.IH)
    show "drop (12 + unat (i + 1)) buf = s @ 0 # rest" using d ui by simp
    show "0 \<notin> set s" using Cons.prems(2) by simp
    show "unat (i + 1) + length s < unat slen" using Cons.prems(3) ui by simp
    show "length s < unat (dlen - 1)" using Cons.prems(4) ud by simp
    show "unat (p + 1) + length s < length (arena[unat p := c])" using Cons.prems(5) up by simp
    show "length (arena[unat p := c]) < 2 ^ 64" using Cons.prems(6) by simp
  qed
  from Cons.prems(5) have "unat p < length arena" by simp
  then have wb: "write_bytes (arena[unat p := c]) (unat (p + 1)) (s @ [0])
      = write_bytes arena (unat p) ((c # s) @ [0])"
    using write_bytes_Cons [of "unat p" arena c "s @ [0]"] up by simp
  show ?case
    by (subst copy_member.simps) (simp add: cnd rd wr c0 ih wb)
qed

lemma unat_lt64: "unat w < 2 ^ 64" for w :: size_t
  using unsigned_less [of w, where 'a = nat] by simp

lemma unat_add_nat64: "unat i + n < 2 ^ 64 \<Longrightarrow> unat (i + of_nat n) = unat i + n" for i :: size_t
  using unat_add_nat [of i n] by simp

lemma read_field_string:
  assumes "drop (12 + unat i) buf = s @ 0 # rest"
    and "0 \<notin> set s"
    and "unat i + length s < unat slen"
    and "length s < unat dlen"
    and "unat i + length s < length arena"
  shows "read_field buf slen i dlen arena
           = Done (0, i + of_nat (length s) + 1, dlen - of_nat (length s) - 1,
                   write_bytes arena (unat i) (s @ [0]))"
proof -
  have "unat slen < 2 ^ 64" by (rule unat_lt64)
  with assms(3) have "unat i + length s < 2 ^ 64" by linarith
  then have ui: "unat (i + of_nat (length s)) = unat i + length s" by (rule unat_add_nat64)
  with assms(3) have a: "\<not> slen \<le> i + of_nat (length s)" by (simp add: word_le_nat_alt)
  from assms(4) have "unat (dlen - of_nat (length s)) = unat dlen - length s"
    by (simp add: unat_sub_nat)
  with assms(4) have b: "\<not> dlen - of_nat (length s) \<le> 0" by (simp add: word_le_nat_alt)
  show ?thesis
    using a b by (simp add: read_field_def obind_def copy_field_string [OF assms])
qed

subsection \<open>The member loop on terminated strings\<close>

text \<open>
  The bytes of the members on the wire, and the arena after the member loop has run over
  them: for each member, the address of its copy in the next slot of the table (at offset
  \<open>t\<close>) and the copy itself (at offset \<open>p\<close>).
\<close>

definition wire_members :: "byte list list \<Rightarrow> byte list" where
  "wire_members ms = concat (map (\<lambda>m. m @ [0]) ms)"

fun member_layout :: "size_t \<Rightarrow> nat \<Rightarrow> nat \<Rightarrow> byte list list \<Rightarrow> byte list \<Rightarrow> byte list" where
  "member_layout buffer t p [] arena = arena"
| "member_layout buffer t p (m # ms) arena =
     member_layout buffer (t + 8) (p + length m + 1) ms
       (write_bytes (write_bytes arena t (le_bytes 8 (buffer + of_nat p))) p (m @ [0]))"

lemma wire_members_Nil: "wire_members [] = []"
  by (simp add: wire_members_def)

lemma wire_members_Cons: "wire_members (m # ms) = m @ 0 # wire_members ms"
  by (simp add: wire_members_def)

lemma read_members_layout:
  assumes "drop (12 + unat i) buf = wire_members ms @ rest"
    and "\<forall>m \<in> set ms. 0 \<notin> set m"
    and "unat i + length (wire_members ms) \<le> unat slen"
    and "length (wire_members ms) \<le> unat dlen"
    and "unat l + length ms = unat mem_num"
    and "unat mem_off + 8 * unat mem_num \<le> unat p"
    and "unat p + length (wire_members ms) \<le> length arena"
    and "length arena < 2 ^ 64"
  shows "read_members buf slen mem_num buffer mem_off l i dlen p arena
           = Done (0, i + of_nat (length (wire_members ms)),
                   member_layout buffer (unat mem_off + 8 * unat l) (unat p) ms arena)"
  using assms
proof (induction ms arbitrary: l i dlen p arena)
  case Nil
  from Nil.prems(5) have "\<not> l < mem_num" by (simp add: word_less_nat_alt)
  then show ?case
    by (subst read_members.simps) (simp add: wire_members_Nil)
next
  case (Cons m ms)
  let ?n = "length m"
  let ?w = "length (wire_members ms)"
  have wl: "length (wire_members (m # ms)) = ?n + 1 + ?w"
    by (simp add: wire_members_Cons)
  from Cons.prems(5) have lt: "l < mem_num" by (simp add: word_less_nat_alt)
  then have ul: "unat (l + 1) = Suc (unat l)" using unat_inc by blast
  have up64: "unat p < 2 ^ 64" by (rule unat_lt64)
  from Cons.prems(5,6) up64 have tb: "unat mem_off + 8 * unat l + 8 \<le> unat p" by simp
  with up64 have "unat mem_off + unat (8 :: size_t) * unat l < 2 ^ 64" by simp
  then have u8l: "unat (8 * l) = 8 * unat l"
    using unat_mult_lem [of 8 l] by simp
  from tb up64 u8l have "unat mem_off + unat (8 * l) < 2 ^ 64" by simp
  then have uoff: "unat (mem_off + 8 * l) = unat mem_off + 8 * unat l"
    using unat_add_lem [of mem_off "8 * l"] u8l by simp
  let ?t = "unat mem_off + 8 * unat l"
  let ?a1 = "write_bytes arena ?t (le_bytes 8 (buffer + p))"
  from tb Cons.prems(7) have tin: "?t + 8 \<le> length arena" by simp
  then have st: "store_ptr arena (unat (mem_off + 8 * l)) (buffer + p) = Done ?a1"
    by (simp add: store_ptr_def uoff)
  have la1: "length ?a1 = length arena"
    using tin by (simp add: length_write_bytes length_le_bytes)
  have cm: "copy_member buf slen i dlen p ?a1
      = Done (i + of_nat ?n + 1, dlen - of_nat ?n - 1, p + of_nat ?n,
              write_bytes ?a1 (unat p) (m @ [0]))"
  proof (rule copy_member_string)
    show "drop (12 + unat i) buf = m @ 0 # (wire_members ms @ rest)"
      using Cons.prems(1) by (simp add: wire_members_Cons)
    show "0 \<notin> set m" using Cons.prems(2) by simp
    show "unat i + ?n < unat slen" using Cons.prems(3) wl by simp
    show "?n < unat dlen" using Cons.prems(4) wl by simp
    show "unat p + ?n < length ?a1" using Cons.prems(7) wl la1 by simp
    show "length ?a1 < 2 ^ 64" using Cons.prems(8) la1 by simp
  qed
  let ?a2 = "write_bytes ?a1 (unat p) (m @ [0])"
  from Cons.prems(7) wl la1 have pin: "unat p + length (m @ [0]) \<le> length ?a1" by simp
  then have la2: "length ?a2 = length arena"
    using la1 by (simp add: length_write_bytes)
  from Cons.prems(7,8) wl have "unat p + ?n < 2 ^ 64" by simp
  then have upn: "unat (p + of_nat ?n) = unat p + ?n" by (rule unat_add_nat64)
  from Cons.prems(7,8) wl have "unat p + (?n + 1) < 2 ^ 64" by simp
  then have upn1: "unat (p + of_nat (?n + 1)) = unat p + (?n + 1)" by (rule unat_add_nat64)
  have ld: "load8 ?a2 (unat (p + of_nat ?n)) = Done 0"
    using pin la1 la2 upn nth_write_bytes [OF pin, of "unat p + ?n"]
    by (simp add: load8_def nth_append)
  have us64: "unat slen < 2 ^ 64" by (rule unat_lt64)
  with Cons.prems(3) wl have "unat i + (?n + 1) < 2 ^ 64" by simp
  then have uin1: "unat (i + of_nat (?n + 1)) = unat i + (?n + 1)" by (rule unat_add_nat64)
  from Cons.prems(4) wl have "?n + 1 \<le> unat dlen" by simp
  then have udn1: "unat (dlen - of_nat (?n + 1)) = unat dlen - (?n + 1)"
    by (rule unat_sub_nat)
  have ih: "read_members buf slen mem_num buffer mem_off (l + 1) (i + of_nat (?n + 1))
              (dlen - of_nat (?n + 1)) (p + of_nat (?n + 1)) ?a2
      = Done (0, i + of_nat (?n + 1) + of_nat ?w,
              member_layout buffer (unat mem_off + 8 * unat (l + 1)) (unat (p + of_nat (?n + 1)))
                ms ?a2)"
  proof (rule Cons.IH)
    have "drop (12 + unat i + (?n + 1)) buf = drop (?n + 1) (drop (12 + unat i) buf)"
      by (simp add: add.commute)
    also have "\<dots> = wire_members ms @ rest"
      using Cons.prems(1) by (simp add: wire_members_Cons)
    finally show "drop (12 + unat (i + of_nat (?n + 1))) buf = wire_members ms @ rest"
      using uin1 by (simp add: add.assoc)
    show "\<forall>m \<in> set ms. 0 \<notin> set m" using Cons.prems(2) by simp
    show "unat (i + of_nat (?n + 1)) + ?w \<le> unat slen" using Cons.prems(3) wl uin1 by simp
    show "?w \<le> unat (dlen - of_nat (?n + 1))" using Cons.prems(4) wl udn1 by simp
    show "unat (l + 1) + length ms = unat mem_num" using Cons.prems(5) ul by simp
    show "unat mem_off + 8 * unat mem_num \<le> unat (p + of_nat (?n + 1))"
      using Cons.prems(6) upn1 by simp
    show "unat (p + of_nat (?n + 1)) + ?w \<le> length ?a2" using Cons.prems(7) wl upn1 la2 by simp
    show "length ?a2 < 2 ^ 64" using Cons.prems(8) la2 by simp
  qed
  have lay: "member_layout buffer (unat mem_off + 8 * unat (l + 1)) (unat (p + of_nat (?n + 1)))
                ms ?a2
      = member_layout buffer ?t (unat p) (m # ms) arena"
    using ul upn1 by (simp add: add.commute add.left_commute)
  have w1: "i + of_nat ?n + 1 = i + of_nat (?n + 1)" by simp
  have w2: "dlen - of_nat ?n - 1 = dlen - of_nat (?n + 1)" by simp
  have w3: "p + of_nat ?n + 1 = p + of_nat (?n + 1)" by simp
  have w4: "i + of_nat (?n + 1) + of_nat ?w = i + of_nat (length (wire_members (m # ms)))"
    by (simp add: wl)
  have fin: "read_members buf slen mem_num buffer mem_off (l + 1) (i + of_nat (?n + 1))
              (dlen - of_nat (?n + 1)) (p + of_nat (?n + 1)) ?a2
      = Done (0, i + of_nat (length (wire_members (m # ms))),
              member_layout buffer ?t (unat p) (m # ms) arena)"
    using ih lay w4 by (simp only:)
  show ?case
    apply (subst read_members.simps)
    apply (simp only: lt if_True st outcome.case cm prod.case ld w1 w2 w3 simp_thms if_False fin)
    done
qed

subsection \<open>Reading the member layout back\<close>

lemma length_member_layout:
  assumes "t + 8 * length ms \<le> p" and "p + length (wire_members ms) \<le> length arena"
  shows "length (member_layout buffer t p ms arena) = length arena"
  using assms
proof (induction ms arbitrary: t p arena)
  case Nil
  show ?case by simp
next
  case (Cons m ms)
  let ?a1 = "write_bytes arena t (le_bytes 8 (buffer + of_nat p))"
  let ?a2 = "write_bytes ?a1 p (m @ [0])"
  from Cons.prems have l1: "length ?a1 = length arena"
    by (simp add: length_write_bytes length_le_bytes)
  from Cons.prems l1 have l2: "length ?a2 = length arena"
    by (simp add: length_write_bytes wire_members_Cons)
  have "length (member_layout buffer (t + 8) (p + length m + 1) ms ?a2) = length ?a2"
    using Cons.prems l2 by (intro Cons.IH) (simp_all add: wire_members_Cons)
  with l2 show ?case by simp
qed

lemma nth_member_layout:
  assumes "t + 8 * length ms \<le> p" and "p + length (wire_members ms) \<le> length arena"
    and "j < t \<or> t + 8 * length ms \<le> j"
    and "j < p \<or> p + length (wire_members ms) \<le> j"
    and "j < length arena"
  shows "member_layout buffer t p ms arena ! j = arena ! j"
  using assms
proof (induction ms arbitrary: t p arena)
  case Nil
  show ?case by simp
next
  case (Cons m ms)
  let ?a1 = "write_bytes arena t (le_bytes 8 (buffer + of_nat p))"
  let ?a2 = "write_bytes ?a1 p (m @ [0])"
  from Cons.prems have i1: "t + length (le_bytes 8 (buffer + of_nat p)) \<le> length arena"
    by (simp add: length_le_bytes)
  then have l1: "length ?a1 = length arena" by (simp add: length_write_bytes)
  from Cons.prems l1 have i2: "p + length (m @ [0]) \<le> length ?a1"
    by (simp add: wire_members_Cons)
  then have l2: "length ?a2 = length arena" using l1 by (simp add: length_write_bytes)
  have "member_layout buffer (t + 8) (p + length m + 1) ms ?a2 ! j = ?a2 ! j"
    using Cons.prems l2 by (intro Cons.IH) (auto simp: wire_members_Cons)
  also have "?a2 ! j = ?a1 ! j"
    using Cons.prems l1 nth_write_bytes [OF i2, of j] by (auto simp: wire_members_Cons)
  also have "?a1 ! j = arena ! j"
    using Cons.prems nth_write_bytes [OF i1, of j] by (auto simp: length_le_bytes)
  finally show ?case by simp
qed

lemma decoded_members_Suc:
  "decoded_members buffer a t (Suc n)
     = arena_str a (unat (load_ptr a t - buffer)) # decoded_members buffer a (t + 8) n"
proof -
  have "[0..<Suc n] = 0 # map Suc [0..<n]"
    by (simp add: upt_conv_Cons map_Suc_upt del: upt_Suc)
  then show ?thesis
    by (simp add: decoded_members_def comp_def add.assoc del: upt_Suc)
qed

lemma member_layout_readback:
  assumes "t + 8 * length ms \<le> p" and "p + length (wire_members ms) \<le> length arena"
    and "length arena < 2 ^ 64"
    and "\<forall>m \<in> set ms. 0 \<notin> set m"
  shows "decoded_members buffer (member_layout buffer t p ms arena) t (length ms) = ms"
  using assms
proof (induction ms arbitrary: t p arena)
  case Nil
  show ?case by (simp add: decoded_members_def)
next
  case (Cons m ms)
  let ?pb = "le_bytes 8 (buffer + of_nat p)"
  let ?a1 = "write_bytes arena t ?pb"
  let ?a2 = "write_bytes ?a1 p (m @ [0])"
  let ?t' = "t + 8" and ?p' = "p + length m + 1"
  let ?A = "member_layout buffer ?t' ?p' ms ?a2"
  from Cons.prems have i1: "t + length ?pb \<le> length arena" by (simp add: length_le_bytes)
  then have l1: "length ?a1 = length arena" by (simp add: length_write_bytes)
  from Cons.prems l1 have i2: "p + length (m @ [0]) \<le> length ?a1"
    by (simp add: wire_members_Cons)
  then have l2: "length ?a2 = length arena" using l1 by (simp add: length_write_bytes)
  from Cons.prems l2 have c1: "?t' + 8 * length ms \<le> ?p'" and
    c2: "?p' + length (wire_members ms) \<le> length ?a2"
    by (simp_all add: wire_members_Cons)
  have lA: "length ?A = length arena"
    using length_member_layout [OF c1 c2] l2 by simp
  have frame: "?A ! j = ?a2 ! j"
    if "j < ?t' \<or> ?t' + 8 * length ms \<le> j" "j < ?p' \<or> ?p' + length (wire_members ms) \<le> j"
       "j < length arena" for j
    using nth_member_layout [OF c1 c2 that(1,2)] that(3) l2 by simp
  have "take 8 (drop t ?A) = take 8 (drop t ?a2)"
  proof (rule slice_eqI)
    show "length ?A = length ?a2" using lA l2 by simp
    show "t + 8 \<le> length ?A" using i1 lA by (simp add: length_le_bytes)
    fix j assume "t \<le> j" "j < t + 8"
    with Cons.prems i1 show "?A ! j = ?a2 ! j"
      by (intro frame) (simp_all add: length_le_bytes)
  qed
  also have "\<dots> = take 8 (drop t ?a1)"
  proof (rule slice_eqI)
    show "length ?a2 = length ?a1" using l1 l2 by simp
    show "t + 8 \<le> length ?a2" using i1 l2 by (simp add: length_le_bytes)
    fix j assume "t \<le> j" "j < t + 8"
    with Cons.prems i1 l1 show "?a2 ! j = ?a1 ! j"
      using nth_write_bytes [OF i2, of j] by (simp add: length_le_bytes)
  qed
  also have "\<dots> = ?pb"
    using slice_write_bytes [OF i1] by (simp add: length_le_bytes)
  finally have "load_ptr ?A t = buffer + of_nat p"
    by (simp add: load_ptr_def le_word_le_bytes_64)
  moreover from Cons.prems have "p < 2 ^ 64" by simp
  ultimately have ptr: "unat (load_ptr ?A t - buffer) = p"
    by (simp add: unat_of_nat)
  have "take (Suc (length m)) (drop p ?A) = take (Suc (length m)) (drop p ?a2)"
  proof (rule slice_eqI)
    show "length ?A = length ?a2" using lA l2 by simp
    show "p + Suc (length m) \<le> length ?A" using i2 l1 lA by simp
    fix j assume "p \<le> j" "j < p + Suc (length m)"
    with Cons.prems i2 l1 show "?A ! j = ?a2 ! j"
      by (intro frame) simp_all
  qed
  also have "\<dots> = m @ [0]"
    using slice_write_bytes [OF i2] by simp
  finally have str: "arena_str ?A p = m"
    using Cons.prems(4) by (intro arena_str_eq) simp_all
  have tail: "decoded_members buffer ?A ?t' (length ms) = ms"
    using Cons.prems(3,4) l2 by (intro Cons.IH [OF c1 c2]) simp_all
  have len: "length (m # ms) = Suc (length ms)" by simp
  show ?case
    by (simp only: len member_layout.simps decoded_members_Suc ptr str tail)
qed

subsection \<open>The member stage on a well-formed record\<close>

lemma ucast_of_nat_32_64:
  "k < 2 ^ 32 \<Longrightarrow> (ucast (of_nat k :: uint32_t) :: size_t) = of_nat k"
  by (simp add: unsigned_of_nat take_bit_nat_eq_self)

lemma unat_of_nat64: "k < 2 ^ 64 \<Longrightarrow> unat (of_nat k :: size_t) = k"
  by (simp add: unat_of_nat)

lemma slice_write_bytes_other:
  assumes "off + length bs \<le> length m" and "o2 + n \<le> off \<or> off + length bs \<le> o2"
    and "o2 + n \<le> length m"
  shows "take n (drop o2 (write_bytes m off bs)) = take n (drop o2 m)"
proof (rule slice_eqI)
  show "length (write_bytes m off bs) = length m" using assms(1) by (rule length_write_bytes)
  show "o2 + n \<le> length (write_bytes m off bs)" using assms(1,3) by (simp add: length_write_bytes)
  fix j assume "o2 \<le> j" "j < o2 + n"
  with assms show "write_bytes m off bs ! j = m ! j"
    using nth_write_bytes [OF assms(1), of j] by auto
qed

lemma slice_member_layout_other:
  assumes "t + 8 * length ms \<le> p" and "p + length (wire_members ms) \<le> length arena"
    and "o2 + n \<le> t \<or> (t + 8 * length ms \<le> o2 \<and> o2 + n \<le> p)"
  shows "take n (drop o2 (member_layout buffer t p ms arena)) = take n (drop o2 arena)"
proof (rule slice_eqI)
  show "length (member_layout buffer t p ms arena) = length arena"
    using assms(1,2) by (rule length_member_layout)
  show "o2 + n \<le> length (member_layout buffer t p ms arena)"
    using assms length_member_layout [OF assms(1,2)] by auto
  fix j assume "o2 \<le> j" "j < o2 + n"
  with assms show "member_layout buffer t p ms arena ! j = arena ! j"
    by (intro nth_member_layout) auto
qed

lemma readrep_members_wellformed:
  assumes src: "drop (12 + unat i) buf = wire_members ms @ rest"
    and nul: "\<forall>m \<in> set ms. 0 \<notin> set m"
    and cnt: "length ms + 1 < 2 ^ 32"
    and num: "mem_num = of_nat (length ms)"
    and inb: "unat i + length (wire_members ms) \<le> unat slen"
    and cap: "8 * (length ms + 1) + length (wire_members ms) \<le> unat dlen"
    and fit: "unat i + 8 * (length ms + 1) + length (wire_members ms) \<le> length arena"
    and len: "length arena < 2 ^ 64"
  shows "readrep_members res buffer arena buf n slen mem_num i dlen
           = Done (0, res\<lparr>gr_mem := buffer + i\<rparr>,
                   member_layout buffer (unat i) (unat i + 8 * (length ms + 1)) ms
                     (write_bytes arena (unat i + 8 * length ms) (le_bytes 8 (0 :: size_t))),
                   slen - (i + of_nat (length (wire_members ms))))"
proof -
  let ?k = "length ms"
  let ?w = "length (wire_members ms)"
  from cnt num have m1: "mem_num + 1 = of_nat (?k + 1)" by simp
  from cnt have pt: "8 * ucast (mem_num + 1) = (of_nat (8 * (?k + 1)) :: size_t)"
    by (simp only: m1 ucast_of_nat_32_64) simp
  from cnt num have mk: "(ucast mem_num :: size_t) = of_nat ?k"
    by (simp add: ucast_of_nat_32_64)
  from fit len have b1: "8 * (?k + 1) < 2 ^ 64" and b2: "?k < 2 ^ 64"
    and b3: "unat i + 8 * ?k < 2 ^ 64" and b4: "unat i + 8 * (?k + 1) < 2 ^ 64" by simp_all
  have umk: "unat (of_nat ?k :: size_t) = ?k" using b2 by (rule unat_of_nat64)
  from cap have "8 * (?k + 1) \<le> unat dlen" by simp
  then have ud: "unat (dlen - of_nat (8 * (?k + 1))) = unat dlen - 8 * (?k + 1)"
    by (rule unat_sub_nat)
  have nneg: "\<not> dlen - of_nat (8 * (?k + 1)) < 0" by simp
  have up: "unat (of_nat (8 * (?k + 1)) + i) = unat i + 8 * (?k + 1)"
    using unat_add_nat64 [OF b4] by (simp only: add.commute)
  have "i + 8 * of_nat ?k = i + of_nat (8 * ?k)" by simp
  then have uo: "unat (i + 8 * of_nat ?k) = unat i + 8 * ?k"
    using unat_add_nat64 [OF b3] by (simp only:)
  let ?a0 = "write_bytes arena (unat i + 8 * ?k) (le_bytes 8 (0 :: size_t))"
  from fit have st: "store_ptr arena (unat i + 8 * ?k) 0 = Done ?a0"
    by (simp add: store_ptr_def)
  from fit have la0: "length ?a0 = length arena"
    by (simp add: length_write_bytes length_le_bytes)
  have rm: "read_members buf slen (of_nat ?k) buffer i 0 i (dlen - of_nat (8 * (?k + 1)))
              (of_nat (8 * (?k + 1)) + i) ?a0
      = Done (0, i + of_nat ?w,
              member_layout buffer (unat i + 8 * unat (0 :: size_t))
                (unat (of_nat (8 * (?k + 1)) + i :: size_t)) ms ?a0)"
  proof (rule read_members_layout)
    show "drop (12 + unat i) buf = wire_members ms @ rest" by (rule src)
    show "\<forall>m \<in> set ms. 0 \<notin> set m" by (rule nul)
    show "unat i + ?w \<le> unat slen" by (rule inb)
    show "?w \<le> unat (dlen - of_nat (8 * (?k + 1)))" using cap ud by simp
    show "unat (0 :: size_t) + ?k = unat (of_nat ?k :: size_t)" using umk by simp
    show "unat i + 8 * unat (of_nat ?k :: size_t) \<le> unat (of_nat (8 * (?k + 1)) + i :: size_t)"
      using umk up by simp
    show "unat (of_nat (8 * (?k + 1)) + i :: size_t) + ?w \<le> length ?a0"
      using up fit la0 by simp
    show "length ?a0 < 2 ^ 64" using len la0 by simp
  qed
  have rm': "read_members buf slen (of_nat ?k) buffer i 0 i (dlen - of_nat (8 * (?k + 1)))
              (of_nat (8 * (?k + 1)) + i) ?a0
      = Done (0, i + of_nat ?w,
              member_layout buffer (unat i) (unat i + 8 * (?k + 1)) ms ?a0)"
    using rm up by simp
  show ?thesis
    apply (simp only: readrep_members_def Let_def pt mk nneg if_False uo st obind_def
        outcome.case rm' prod.case)
    apply simp
    done
qed

subsection \<open>The round trip\<close>

text \<open>The least arena a record needs: its strings and the member table with its sentinel.\<close>

definition arena_need :: "byte list \<Rightarrow> byte list \<Rightarrow> byte list list \<Rightarrow> nat" where
  "arena_need name passwd members =
     length (wire_strings name passwd members) + 8 * (length members + 1)"

lemma wire_strings_eq:
  "wire_strings name passwd members = name @ 0 # passwd @ 0 # wire_members members"
  by (simp add: wire_strings_def wire_members_def)

text \<open>
  C3, amended. A well-formed record (no 0 byte inside a string, fewer than \<open>2^32 - 1\<close>
  members, the member count of the header equal to the number of members), followed by any
  bytes \<open>rest\<close>, in a source of at least 21 bytes, decoded into an arena that holds at
  least \<open>arena_need\<close> bytes: the decoder returns 0 and passes back the length of
  \<open>rest\<close>; the strings reached through \<open>gr_name\<close>, \<open>gr_passwd\<close> and the first
  \<open>member_count\<close> slots of \<open>gr_mem\<close> are the name, the passwd and the members; the slot
  after them holds NULL; and these strings, written out again with their terminators, are the
  bytes of the source after the header.
\<close>

theorem readrep_roundtrip:
  assumes n0: "0 \<notin> set name" and p0: "0 \<notin> set passwd" and m0: "\<forall>m \<in> set members. 0 \<notin> set m"
    and cnt: "length members + 1 < 2 ^ 32"
    and src: "buf = wire_record gid (of_nat (length members)) name passwd members @ rest"
    and floor: "21 \<le> length buf"
    and big: "length buf < 2 ^ 64"
    and alen: "length arena < 2 ^ 64"
    and cap: "buflen = of_nat (length arena)"
    and fit: "arena_need name passwd members \<le> length arena"
  shows "\<exists>res' arena'.
           sss_nss_getgr_readrep res buffer buflen arena buf (of_nat (length buf))
             = Done (0, res', arena', of_nat (length rest)) \<and>
           length arena' = length arena \<and>
           gr_gid res' = ucast gid \<and>
           arena_str arena' (unat (gr_name res' - buffer)) = name \<and>
           arena_str arena' (unat (gr_passwd res' - buffer)) = passwd \<and>
           decoded_members buffer arena' (unat (gr_mem res' - buffer)) (length members) = members \<and>
           load_ptr arena' (unat (gr_mem res' - buffer) + 8 * length members) = 0 \<and>
           wire_strings (arena_str arena' (unat (gr_name res' - buffer)))
               (arena_str arena' (unat (gr_passwd res' - buffer)))
               (decoded_members buffer arena' (unat (gr_mem res' - buffer)) (length members))
             @ rest = drop 12 buf"
proof -
  let ?nl = "length name" and ?pl = "length passwd" and ?k = "length members"
  let ?w = "length (wire_members members)"
  define n :: size_t where "n = of_nat (length buf)"
  have un: "unat n = length buf" using big by (simp add: n_def unat_of_nat64)
  have lb: "length buf = 12 + (?nl + 1 + (?pl + 1 + (?w + length rest)))"
    by (simp add: src wire_record_def wire_strings_eq length_le_bytes)
  have d12: "drop 12 buf = name @ 0 # (passwd @ 0 # wire_members members @ rest)"
    by (simp add: src wire_record_def wire_strings_eq length_le_bytes)
  from fit have need: "?nl + 1 + (?pl + 1 + ?w) + 8 * (?k + 1) \<le> length arena"
    by (simp add: arena_need_def wire_strings_eq)
  have nlt: "\<not> n < 21" using floor un by (simp add: word_less_nat_alt)
  have "12 \<le> unat n" using floor un by simp
  then have "unat (n - of_nat 12) = unat n - 12" by (rule unat_sub_nat)
  then have us: "unat (n - 12) = length buf - 12" using un by simp
  have ld64: "load64 buf 0 = Done gid"
    by (simp add: load64_def src wire_record_def length_le_bytes le_word_le_bytes_64)
  have ld32: "load32 buf 8 = Done (of_nat ?k)"
    by (simp add: load32_def src wire_record_def length_le_bytes le_word_le_bytes_32)
  have ub: "unat buflen = length arena" using alen cap by (simp add: unat_of_nat64)
  \<comment> \<open>the name\<close>
  define i1 :: size_t where "i1 = 0 + of_nat ?nl + 1"
  define d1 :: size_t where "d1 = buflen - of_nat ?nl - 1"
  define a1 where "a1 = write_bytes arena (unat (0 :: size_t)) (name @ [0])"
  have f1: "read_field buf (n - 12) 0 buflen arena = Done (0, i1, d1, a1)"
    unfolding i1_def d1_def a1_def
  proof (rule read_field_string)
    show "drop (12 + unat (0 :: size_t)) buf = name @ 0 # (passwd @ 0 # wire_members members @ rest)"
      using d12 by simp
    show "0 \<notin> set name" by (rule n0)
    show "unat (0 :: size_t) + ?nl < unat (n - 12)" using us lb by simp
    show "?nl < unat buflen" using ub need by simp
    show "unat (0 :: size_t) + ?nl < length arena" using need by simp
  qed
  have "i1 = of_nat (?nl + 1)" by (simp add: i1_def)
  moreover have "?nl + 1 < 2 ^ 64" using need alen by simp
  ultimately have ui1: "unat i1 = ?nl + 1" by (simp only: unat_of_nat64)
  have "?nl + 1 \<le> unat buflen" using ub need by simp
  then have "unat (buflen - of_nat (?nl + 1)) = unat buflen - (?nl + 1)" by (rule unat_sub_nat)
  moreover have "d1 = buflen - of_nat (?nl + 1)" by (simp add: d1_def)
  ultimately have ud1: "unat d1 = length arena - (?nl + 1)" using ub by (simp only:)
  have la1: "length a1 = length arena"
    using need by (simp add: a1_def length_write_bytes)
  \<comment> \<open>the password placeholder\<close>
  define i2 :: size_t where "i2 = i1 + of_nat ?pl + 1"
  define d2 :: size_t where "d2 = d1 - of_nat ?pl - 1"
  define a2 where "a2 = write_bytes a1 (unat i1) (passwd @ [0])"
  have f2: "read_field buf (n - 12) i1 d1 a1 = Done (0, i2, d2, a2)"
    unfolding i2_def d2_def a2_def
  proof (rule read_field_string)
    have e: "12 + unat i1 = (?nl + 1) + 12" using ui1 by simp
    have "drop (12 + unat i1) buf = drop (?nl + 1) (drop 12 buf)"
      by (simp only: e drop_drop)
    then show "drop (12 + unat i1) buf = passwd @ 0 # (wire_members members @ rest)"
      by (simp add: d12)
    show "0 \<notin> set passwd" by (rule p0)
    show "unat i1 + ?pl < unat (n - 12)" using us lb ui1 by simp
    show "?pl < unat d1" using ud1 need by simp
    show "unat i1 + ?pl < length a1" using need ui1 la1 by simp
  qed
  have "i2 = i1 + of_nat (?pl + 1)" by (simp add: i2_def)
  moreover have "unat i1 + (?pl + 1) < 2 ^ 64" using need alen ui1 by simp
  ultimately have ui2: "unat i2 = ?nl + 1 + (?pl + 1)" using ui1 by (simp only: unat_add_nat64)
  have "?pl + 1 \<le> unat d1" using ud1 need by simp
  then have "unat (d1 - of_nat (?pl + 1)) = unat d1 - (?pl + 1)" by (rule unat_sub_nat)
  moreover have "d2 = d1 - of_nat (?pl + 1)" by (simp add: d2_def)
  ultimately have ud2: "unat d2 = length arena - (?nl + 1) - (?pl + 1)" using ud1 by (simp only:)
  have i2in: "unat i1 + length (passwd @ [0]) \<le> length a1" using need ui1 la1 by simp
  have la2: "length a2 = length arena"
    using i2in la1 by (simp add: a2_def length_write_bytes)
  \<comment> \<open>the members\<close>
  define a3 where "a3 = write_bytes a2 (unat i2 + 8 * ?k) (le_bytes 8 (0 :: size_t))"
  define A where "A = member_layout buffer (unat i2) (unat i2 + 8 * (?k + 1)) members a3"
  have f3: "readrep_members r buffer a2 buf m (n - 12) (of_nat ?k) i2 d2
      = Done (0, r\<lparr>gr_mem := buffer + i2\<rparr>, A, n - 12 - (i2 + of_nat ?w))" for r m
    unfolding A_def a3_def
  proof (rule readrep_members_wellformed)
    have e: "12 + unat i2 = (?pl + 1) + ((?nl + 1) + 12)" using ui2 by simp
    have "drop (12 + unat i2) buf = drop (?pl + 1) (drop (?nl + 1) (drop 12 buf))"
      by (simp only: e drop_drop)
    then show "drop (12 + unat i2) buf = wire_members members @ rest"
      by (simp add: d12)
    show "\<forall>m \<in> set members. 0 \<notin> set m" by (rule m0)
    show "?k + 1 < 2 ^ 32" by (rule cnt)
    show "(of_nat ?k :: uint32_t) = of_nat ?k" by simp
    show "unat i2 + ?w \<le> unat (n - 12)" using us lb ui2 by simp
    show "8 * (?k + 1) + ?w \<le> unat d2" using ud2 need by simp
    show "unat i2 + 8 * (?k + 1) + ?w \<le> length a2" using need ui2 la2 by simp
    show "length a2 < 2 ^ 64" using alen la2 by simp
  qed
  have "n - 12 - (i2 + of_nat ?w) = of_nat (length rest)"
    by (simp add: n_def lb i2_def i1_def)
  with f3 have f3': "readrep_members r buffer a2 buf m (n - 12) (of_nat ?k) i2 d2
      = Done (0, r\<lparr>gr_mem := buffer + i2\<rparr>, A, of_nat (length rest))" for r m
    by simp
  have run: "sss_nss_getgr_readrep res buffer buflen arena buf n
      = Done (0, res\<lparr>gr_gid := ucast gid, gr_name := buffer, gr_passwd := buffer + i1,
                     gr_mem := buffer + i2\<rparr>, A, of_nat (length rest))"
    by (simp add: sss_nss_getgr_readrep_def obind_def Let_def nlt ld64 ld32 f1 f2 f3')
  \<comment> \<open>reading back\<close>
  have t8: "unat i2 + 8 * ?k + length (le_bytes 8 (0 :: size_t)) \<le> length a2"
    using need ui2 la2 by (simp add: length_le_bytes)
  have la3: "length a3 = length arena"
    using t8 la2 by (simp add: a3_def length_write_bytes)
  have c1: "unat i2 + 8 * ?k \<le> unat i2 + 8 * (?k + 1)" by simp
  have c2: "unat i2 + 8 * (?k + 1) + ?w \<le> length a3" using need ui2 la3 by simp
  have lA: "length A = length arena"
    using length_member_layout [OF c1 c2] la3 by (simp add: A_def)
  have i1in: "unat (0 :: size_t) + length (name @ [0]) \<le> length arena" using need by simp
  have "take (Suc ?nl) (drop 0 A) = take (Suc ?nl) (drop 0 a3)"
    unfolding A_def using ui2 by (intro slice_member_layout_other [OF c1 c2]) simp
  also have "\<dots> = take (Suc ?nl) (drop 0 a2)"
    unfolding a3_def using ui2 la2 need by (intro slice_write_bytes_other [OF t8]) simp_all
  also have "\<dots> = take (Suc ?nl) (drop 0 a1)"
    unfolding a2_def using ui1 la1 need by (intro slice_write_bytes_other [OF i2in]) simp_all
  also have "\<dots> = name @ [0]"
    using slice_write_bytes [OF i1in] by (simp add: a1_def)
  finally have rn: "arena_str A 0 = name" using n0 by (intro arena_str_eq) simp_all
  have "take (Suc ?pl) (drop (unat i1) A) = take (Suc ?pl) (drop (unat i1) a3)"
    unfolding A_def using ui1 ui2 by (intro slice_member_layout_other [OF c1 c2]) simp
  also have "\<dots> = take (Suc ?pl) (drop (unat i1) a2)"
    unfolding a3_def using ui1 ui2 la2 need by (intro slice_write_bytes_other [OF t8]) simp_all
  also have "\<dots> = passwd @ [0]"
    using slice_write_bytes [OF i2in] by (simp add: a2_def)
  finally have rp: "arena_str A (unat i1) = passwd" using p0 by (intro arena_str_eq) simp_all
  have rm: "decoded_members buffer A (unat i2) ?k = members"
    unfolding A_def using alen la3 m0 by (intro member_layout_readback [OF c1 c2]) simp_all
  have "take 8 (drop (unat i2 + 8 * ?k) A) = take 8 (drop (unat i2 + 8 * ?k) a3)"
    unfolding A_def by (intro slice_member_layout_other [OF c1 c2]) simp
  also have "\<dots> = le_bytes 8 (0 :: size_t)"
    using slice_write_bytes [OF t8] by (simp add: a3_def length_le_bytes)
  finally have rs: "load_ptr A (unat i2 + 8 * ?k) = 0"
    by (simp add: load_ptr_def le_word_le_bytes_64)
  have re: "wire_strings name passwd members @ rest = drop 12 buf"
    by (simp add: d12 wire_strings_eq)
  show ?thesis
    apply (rule exI [of _ "res\<lparr>gr_gid := ucast gid, gr_name := buffer, gr_passwd := buffer + i1,
                     gr_mem := buffer + i2\<rparr>"])
    apply (rule exI [of _ A])
    using run rn rp rm rs lA re apply (simp add: n_def)
    done
qed

theorem readrep_roundtrip_witness:
  "0 \<notin> set [119, 104, 101, 101, 108 :: byte] \<and> 0 \<notin> set [120 :: byte] \<and>
   0 \<notin> set [114, 111, 111, 116 :: byte] \<and> 0 \<notin> set [97, 108, 105, 99, 101 :: byte] \<and>
   length [[114, 111, 111, 116], [97, 108, 105, 99, 101 :: byte]] + 1 < 2 ^ 32 \<and>
   [10, 0, 0, 0, 0, 0, 0, 0, 2, 0, 0, 0, 119, 104, 101, 101, 108, 0, 120, 0, 114, 111, 111, 116, 0,
      97, 108, 105, 99, 101, 0 :: byte] = wire_record 10 (of_nat (length [[114, 111, 111, 116], [97, 108, 105, 99, 101 :: byte]]))
             [119, 104, 101, 101, 108] [120] [[114, 111, 111, 116], [97, 108, 105, 99, 101]] @ [] \<and>
   21 \<le> length [10, 0, 0, 0, 0, 0, 0, 0, 2, 0, 0, 0, 119, 104, 101, 101, 108, 0, 120, 0, 114, 111, 111, 116, 0,
      97, 108, 105, 99, 101, 0 :: byte] \<and> length [10, 0, 0, 0, 0, 0, 0, 0, 2, 0, 0, 0, 119, 104, 101, 101, 108, 0, 120, 0, 114, 111, 111, 116, 0,
      97, 108, 105, 99, 101, 0 :: byte] < 2 ^ 64 \<and>
   length (replicate 64 (170 :: byte)) < 2 ^ 64 \<and>
   (64 :: size_t) = of_nat (length (replicate 64 (170 :: byte))) \<and>
   arena_need [119, 104, 101, 101, 108] [120] [[114, 111, 111, 116], [97, 108, 105, 99, 101]]
     \<le> length (replicate 64 (170 :: byte)) \<and>
   (\<exists>res' arena'.
      sss_nss_getgr_readrep \<lparr>gr_name = 0, gr_passwd = 0, gr_gid = 0, gr_mem = 0\<rparr> 4096 64
          (replicate 64 170) [10, 0, 0, 0, 0, 0, 0, 0, 2, 0, 0, 0, 119, 104, 101, 101, 108, 0, 120, 0, 114, 111, 111, 116, 0,
      97, 108, 105, 99, 101, 0 :: byte] (of_nat (length [10, 0, 0, 0, 0, 0, 0, 0, 2, 0, 0, 0, 119, 104, 101, 101, 108, 0, 120, 0, 114, 111, 111, 116, 0,
      97, 108, 105, 99, 101, 0 :: byte]))
        = Done (0, res', arena', of_nat (length ([] :: byte list))) \<and>
      length arena' = length (replicate 64 (170 :: byte)) \<and>
      gr_gid res' = ucast (10 :: uint64_t) \<and>
      arena_str arena' (unat (gr_name res' - 4096)) = [119, 104, 101, 101, 108] \<and>
      arena_str arena' (unat (gr_passwd res' - 4096)) = [120] \<and>
      decoded_members 4096 arena' (unat (gr_mem res' - 4096))
          (length [[114, 111, 111, 116], [97, 108, 105, 99, 101 :: byte]])
        = [[114, 111, 111, 116], [97, 108, 105, 99, 101]] \<and>
      load_ptr arena' (unat (gr_mem res' - 4096)
          + 8 * length [[114, 111, 111, 116], [97, 108, 105, 99, 101 :: byte]]) = 0 \<and>
      wire_strings (arena_str arena' (unat (gr_name res' - 4096)))
          (arena_str arena' (unat (gr_passwd res' - 4096)))
          (decoded_members 4096 arena' (unat (gr_mem res' - 4096))
             (length [[114, 111, 111, 116], [97, 108, 105, 99, 101 :: byte]]))
        @ [] = drop 12 [10, 0, 0, 0, 0, 0, 0, 0, 2, 0, 0, 0, 119, 104, 101, 101, 108, 0, 120, 0, 114, 111, 111, 116, 0,
      97, 108, 105, 99, 101, 0 :: byte])"
proof -
  let ?buf = "[10, 0, 0, 0, 0, 0, 0, 0, 2, 0, 0, 0, 119, 104, 101, 101, 108, 0, 120, 0, 114, 111, 111, 116, 0,
      97, 108, 105, 99, 101, 0 :: byte]"
  have h1: "0 \<notin> set [119, 104, 101, 101, 108 :: byte]" by simp
  have h2: "0 \<notin> set [120 :: byte]" by simp
  have h3: "\<forall>m \<in> set [[114, 111, 111, 116], [97, 108, 105, 99, 101 :: byte]]. 0 \<notin> set m" by simp
  have h3a: "0 \<notin> set [114, 111, 111, 116 :: byte]" by simp
  have h3b: "0 \<notin> set [97, 108, 105, 99, 101 :: byte]" by simp
  have h4: "length [[114, 111, 111, 116], [97, 108, 105, 99, 101 :: byte]] + 1 < 2 ^ 32" by simp
  have h5: "?buf = wire_record 10
      (of_nat (length [[114, 111, 111, 116], [97, 108, 105, 99, 101 :: byte]]))
      [119, 104, 101, 101, 108] [120] [[114, 111, 111, 116], [97, 108, 105, 99, 101]] @ []"
    by code_simp
  have h6: "21 \<le> length ?buf" by simp
  have h7: "length ?buf < 2 ^ 64" by simp
  have h8: "length (replicate 64 (170 :: byte)) < 2 ^ 64" by simp
  have h9: "(64 :: size_t) = of_nat (length (replicate 64 (170 :: byte)))" by simp
  have h10: "arena_need [119, 104, 101, 101, 108] [120] [[114, 111, 111, 116], [97, 108, 105, 99, 101]]
     \<le> length (replicate 64 (170 :: byte))" by code_simp
  note inst = readrep_roundtrip [OF h1 h2 h3 h4 h5 h6 h7 h8 h9 h10,
      of "\<lparr>gr_name = 0, gr_passwd = 0, gr_gid = 0, gr_mem = 0\<rparr>" 4096]
  show ?thesis
    by (intro conjI h1 h2 h3a h3b h4 h5 h6 h7 h8 h9 h10 inst)
qed

text \<open>
  C3. As the claim states it, it fails on the well-formed records of fewer than 21 bytes: the
  record with the name "a", the passwd "x" and no member has 16 bytes, and the decoder rejects
  it before it looks at it, however large the arena.
\<close>

theorem readrep_rejects_short_wellformed:
  "wire_record 10 0 [97] [120] [] = [10, 0, 0, 0, 0, 0, 0, 0, 0, 0, 0, 0, 97, 0, 120, 0] \<and>
   arena_need [97] [120] [] = 12 \<and>
   sss_nss_getgr_readrep \<lparr>gr_name = 0, gr_passwd = 0, gr_gid = 0, gr_mem = 0\<rparr> 4096 64
     (replicate 64 170) (wire_record 10 0 [97] [120] []) 16
   = Done (EBADMSG, \<lparr>gr_name = 0, gr_passwd = 0, gr_gid = 0, gr_mem = 0\<rparr>, replicate 64 170, 16)"
  by code_simp

end
